theory Spec2Isabelle
  imports Complex_Main "HOL-Library.Word" "HOL-Library.Signed_Division" "HOL-Library.Monad_Syntax"
    "HOL-Library.Multiset"
begin

section \<open>Animated GIF compositing and playback (package rgif) and the unloadable registry\<close>

text \<open>
  The development embeds \<^verbatim>\<open>raylib-gif/gif.go\<close> and the registry of unloadables of package
  \<^verbatim>\<open>raylib\<close>.

  Conventions of the embedding.
  \<^item> Go's \<^verbatim>\<open>int\<close> is modelled as \<open>int\<close>. The rectangles, delays and counts come from
    \<^verbatim>\<open>image/gif\<close>, whose coordinates are 16-bit fields, so no sum, difference or product
    formed here comes near the bounds of a 64-bit integer. The limits of memory on the size
    of a slice are not modelled.
  \<^item> \<^verbatim>\<open>uint32\<close> colour channels are \<open>32 word\<close>, \<^verbatim>\<open>uint8\<close> channels and \<^verbatim>\<open>byte\<close>
    disposal codes are \<open>8 word\<close>; the conversion \<^verbatim>\<open>uint8(c)\<close> is \<open>ucast\<close>.
  \<^item> A run-time panic (index out of range, \<^verbatim>\<open>makeslice\<close>, integer division by zero) is
    the value \<open>None\<close> of the operation that raises it, and \<open>Inl Panic\<close> of the loader.
  \<^item> \<^verbatim>\<open>float32\<close> values are modelled by the real numbers they denote. Every \<^verbatim>\<open>float32\<close>
    operation of the source is the exact operation followed by rounding; the rounding
    function is the parameter \<open>f32\<close> of \<open>Step\<close> and \<open>NextFrame\<close>. Infinities and NaN are
    outside the model.
  \<^item> \<^verbatim>\<open>os.Open\<close>, \<^verbatim>\<open>gif.DecodeAll\<close> and the sampling \<^verbatim>\<open>img.At(x, y).RGBA()\<close> belong to
    the Go library: the first two are parameters of \<open>LoadGifFromFile\<close>, the third is the
    field \<open>At\<close> of a frame. The GPU texture of a \<open>GifImage\<close> is not modelled.
\<close>

subsection \<open>Data\<close>

type_synonym FrameDisposal = int

definition FrameDisposalNone :: FrameDisposal where
  "FrameDisposalNone = 0"

definition FrameDisposalDontDispose :: FrameDisposal where
  "FrameDisposalDontDispose = 1"

definition FrameDisposalRestoreBackground :: FrameDisposal where
  "FrameDisposalRestoreBackground = 2"

definition FrameDisposalRestorePrevious :: FrameDisposal where
  "FrameDisposalRestorePrevious = 3"

text \<open>\<^verbatim>\<open>r.Color\<close> and \<^verbatim>\<open>r.NewColor\<close>: four 8-bit channels.\<close>

record Color =
  R :: "8 word"
  G :: "8 word"
  B :: "8 word"
  A :: "8 word"

definition NewColor :: "8 word \<Rightarrow> 8 word \<Rightarrow> 8 word \<Rightarrow> 8 word \<Rightarrow> Color" where
  "NewColor r g b a = \<lparr>R = r, G = g, B = b, A = a\<rparr>"

text \<open>The four results of \<^verbatim>\<open>color.RGBA()\<close>: red, green, blue, alpha.\<close>

type_synonym RGBA = "32 word \<times> 32 word \<times> 32 word \<times> 32 word"

record Point =
  X :: int
  Y :: int

record Rectangle =
  Min_pt :: Point
  Max_pt :: Point

text \<open>A decoded frame (\<^verbatim>\<open>*image.Paletted\<close>): its rectangle and its sampling function.\<close>

record Paletted =
  Rect :: Rectangle
  At :: "int \<Rightarrow> int \<Rightarrow> RGBA"

text \<open>The decoder's result (\<^verbatim>\<open>*gif.GIF\<close>): frames, delays and disposal codes.\<close>

record GIF =
  gif_Image :: "Paletted list"
  gif_Delay :: "int list"
  gif_Disposal :: "8 word list"

record GifImage =
  Width :: int
  Height :: int
  Frames :: int
  Timing :: "int list"
  Disposal :: "FrameDisposal list"
  pixels :: "Color list list"
  currentFrame :: int
  lastFrameTime :: real

datatype fault = Error string | Panic

subsection \<open>Slices\<close>

text \<open>Reading and writing \<^verbatim>\<open>xs[k]\<close>; \<open>None\<close> is the index-out-of-range panic.\<close>

definition index :: "'a list \<Rightarrow> int \<Rightarrow> 'a option" where
  "index xs k = (if 0 \<le> k \<and> k < int (length xs) then Some (xs ! nat k) else None)"

definition store :: "'a list \<Rightarrow> int \<Rightarrow> 'a \<Rightarrow> 'a list option" where
  "store xs k v = (if 0 \<le> k \<and> k < int (length xs) then Some (xs[nat k := v]) else None)"

text \<open>A \<^verbatim>\<open>for\<close> loop over the elements of a list; a panic in the body ends it.\<close>

fun forEach :: "'a list \<Rightarrow> ('a \<Rightarrow> 's \<Rightarrow> 's option) \<Rightarrow> 's \<Rightarrow> 's option" where
  "forEach [] body s = Some s"
| "forEach (a # as) body s = (case body a s of None \<Rightarrow> None | Some s' \<Rightarrow> forEach as body s')"

subsection \<open>getGifDimensions\<close>

text \<open>The loop over the frames; the accumulator is (lowestX, lowestY, highestX, highestY).\<close>

fun dimensionsLoop :: "Paletted list \<Rightarrow> int \<times> int \<times> int \<times> int \<Rightarrow> int \<times> int \<times> int \<times> int" where
  "dimensionsLoop [] acc = acc"
| "dimensionsLoop (img # imgs) (lowestX, lowestY, highestX, highestY) =
     dimensionsLoop imgs
       (if X (Min_pt (Rect img)) < lowestX then X (Min_pt (Rect img)) else lowestX,
        if Y (Min_pt (Rect img)) < lowestY then Y (Min_pt (Rect img)) else lowestY,
        if X (Max_pt (Rect img)) > highestX then X (Max_pt (Rect img)) else highestX,
        if Y (Max_pt (Rect img)) > highestY then Y (Max_pt (Rect img)) else highestY)"

definition getGifDimensions :: "GIF \<Rightarrow> int \<times> int" where
  "getGifDimensions gif =
     (case dimensionsLoop (gif_Image gif) (0, 0, 0, 0) of
        (lowestX, lowestY, highestX, highestY) \<Rightarrow> (highestX - lowestX, highestY - lowestY))"

text \<open>
  The bounding box as the specification words it: the largest maximum minus the smallest
  minimum over the frames' rectangles, per axis.
\<close>

definition boundingBox_spec :: "Rectangle list \<Rightarrow> int \<times> int" where
  "boundingBox_spec rs =
     (Max (set (map (\<lambda>r. X (Max_pt r)) rs)) - Min (set (map (\<lambda>r. X (Min_pt r)) rs)),
      Max (set (map (\<lambda>r. Y (Max_pt r)) rs)) - Min (set (map (\<lambda>r. Y (Min_pt r)) rs)))"

subsection \<open>LoadGifFromFile\<close>

text \<open>
  The local variables of the compositing loop. \<open>pixels'\<close> is the local \<^verbatim>\<open>pixels\<close> of the
  frame being resolved; \<open>previousNonDisposed\<close> is the frame the pointer refers to.
\<close>

record locals =
  disposals :: "FrameDisposal list"
  images :: "Color list list"
  clumative :: "Color list"
  previousNonDisposed :: Paletted
  pixels' :: "Color list"

text \<open>The body of the innermost loop: pixel \<open>(x, y)\<close> of frame \<open>i\<close>.\<close>

definition pixelBody :: "GIF \<Rightarrow> int \<Rightarrow> nat \<Rightarrow> Paletted \<Rightarrow> nat \<Rightarrow> nat \<Rightarrow> locals \<Rightarrow> locals option" where
  "pixelBody gif imgWidth i img y x s =
     (case At img (int x) (int y) of (red, green, blue, alpha) \<Rightarrow>
      let k = int x + int y * imgWidth in
      do {
        d \<leftarrow> index (disposals s) (int i);
        if d = FrameDisposalNone then do {
          px \<leftarrow> store (pixels' s) k (NewColor (ucast red) (ucast green) (ucast blue) (ucast alpha));
          c \<leftarrow> index px k;
          cl \<leftarrow> store (clumative s) k c;
          Some (s\<lparr>pixels' := px, clumative := cl, previousNonDisposed := img\<rparr>)
        } else if d = FrameDisposalDontDispose then do {
          s1 \<leftarrow> (if alpha > 0 then do {
                   px \<leftarrow> store (pixels' s) k
                          (NewColor (ucast red) (ucast green) (ucast blue) (ucast alpha));
                   c \<leftarrow> index px k;
                   cl \<leftarrow> store (clumative s) k c;
                   Some (s\<lparr>pixels' := px, clumative := cl\<rparr>)
                 } else do {
                   c \<leftarrow> index (clumative s) k;
                   px \<leftarrow> store (pixels' s) k c;
                   Some (s\<lparr>pixels' := px\<rparr>)
                 });
          Some (s1\<lparr>previousNonDisposed := img\<rparr>)
        } else if d = FrameDisposalRestoreBackground then do {
          d0 \<leftarrow> index (disposals s) 0;
          rgba \<leftarrow> (if d0 = FrameDisposalDontDispose \<and> alpha = 0
                   then do { img0 \<leftarrow> index (gif_Image gif) 0; Some (At img0 (int x) (int y)) }
                   else Some (red, green, blue, alpha));
          case rgba of (red, green, blue, alpha) \<Rightarrow> do {
            px \<leftarrow> store (pixels' s) k
                   (NewColor (ucast red) (ucast green) (ucast blue) (ucast alpha));
            c \<leftarrow> index px k;
            cl \<leftarrow> store (clumative s) k c;
            Some (s\<lparr>pixels' := px, clumative := cl\<rparr>)
          }
        } else if d = FrameDisposalRestorePrevious then do {
          rgba \<leftarrow> (if alpha = 0 then Some (At (previousNonDisposed s) (int x) (int y))
                   else Some (red, green, blue, alpha));
          case rgba of (red, green, blue, alpha) \<Rightarrow> do {
            px \<leftarrow> store (pixels' s) k
                   (NewColor (ucast red) (ucast green) (ucast blue) (ucast alpha));
            c \<leftarrow> index px k;
            cl \<leftarrow> store (clumative s) k c;
            Some (s\<lparr>pixels' := px, clumative := cl\<rparr>)
          }
        } else Some s
      })"

text \<open>
  The body of the loop over the frames: the disposal code is converted and stored, a fresh
  \<^verbatim>\<open>pixels\<close> slice is made, the two pixel loops run, and the slice is stored in
  \<^verbatim>\<open>images[i]\<close>.
\<close>

definition frameBody :: "GIF \<Rightarrow> int \<Rightarrow> int \<Rightarrow> nat \<times> Paletted \<Rightarrow> locals \<Rightarrow> locals option" where
  "frameBody gif imgWidth imgHeight = (\<lambda>(i, img) s.
     do {
       code \<leftarrow> index (gif_Disposal gif) (int i);
       ds \<leftarrow> store (disposals s) (int i) (uint code);
       let s1 = s\<lparr>disposals := ds,
                  pixels' := replicate (nat (imgWidth * imgHeight)) (NewColor 0 0 0 0)\<rparr>;
       s2 \<leftarrow> forEach [0..<nat imgHeight] (\<lambda>y.
               forEach [0..<nat imgWidth] (\<lambda>x. pixelBody gif imgWidth i img y x)) s1;
       imgs \<leftarrow> store (images s2) (int i) (pixels' s2);
       Some (s2\<lparr>images := imgs\<rparr>)
     })"

text \<open>
  The locals when the loop over the frames begins: \<^verbatim>\<open>disposals\<close> and \<^verbatim>\<open>images\<close> of length
  \<open>frames\<close>, \<^verbatim>\<open>clumative\<close> of length \<open>n\<close>, all zero-valued, and \<^verbatim>\<open>previousNonDisposed\<close>
  referring to \<^verbatim>\<open>gif.Image[0]\<close>.
\<close>

definition initialLocals :: "nat \<Rightarrow> nat \<Rightarrow> Paletted \<Rightarrow> locals" where
  "initialLocals frames n img0 =
     \<lparr>disposals = replicate frames 0,
      images = replicate frames [],
      clumative = replicate n (NewColor 0 0 0 0),
      previousNonDisposed = img0,
      pixels' = []\<rparr>"

text \<open>
  The part of \<^verbatim>\<open>LoadGifFromFile\<close> after decoding. \<^verbatim>\<open>make([][]r.Color, frames, n)\<close> panics
  when \<open>n\<close> is negative or smaller than \<open>frames\<close>; \<^verbatim>\<open>gif.Image[0]\<close> panics on an empty frame
  list. A \<^verbatim>\<open>nil\<close> entry of \<open>images\<close> is the empty list.
\<close>

definition loadDecoded :: "GIF \<Rightarrow> fault + GifImage" where
  "loadDecoded gif =
     (case getGifDimensions gif of (imgWidth, imgHeight) \<Rightarrow>
      let frames = int (length (gif_Image gif)) in
      if imgWidth * imgHeight < 0 \<or> frames > imgWidth * imgHeight then Inl Panic
      else
        (case index (gif_Image gif) 0 of
           None \<Rightarrow> Inl Panic
         | Some img0 \<Rightarrow>
            (case forEach (enumerate 0 (gif_Image gif)) (frameBody gif imgWidth imgHeight)
                    (initialLocals (nat frames) (nat (imgWidth * imgHeight)) img0) of
               None \<Rightarrow> Inl Panic
             | Some s \<Rightarrow>
                 Inr \<lparr>Width = imgWidth, Height = imgHeight, Frames = frames,
                      Timing = gif_Delay gif, Disposal = disposals s, pixels = images s,
                      currentFrame = 0, lastFrameTime = 0\<rparr>)))"

definition LoadGifFromFile ::
    "(string \<Rightarrow> string + 'file) \<Rightarrow> ('file \<Rightarrow> string + GIF) \<Rightarrow> string \<Rightarrow> fault + GifImage" where
  "LoadGifFromFile os_Open gif_DecodeAll fileName =
     (case os_Open fileName of
        Inl err \<Rightarrow> Inl (Error err)
      | Inr file \<Rightarrow>
         (case gif_DecodeAll file of
            Inl err \<Rightarrow> Inl (Error err)
          | Inr gif \<Rightarrow> loadDecoded gif))"

subsection \<open>Playback: Step, NextFrame, Reset\<close>

text \<open>
  Go's \<^verbatim>\<open>%\<close> truncates towards zero (\<open>smod\<close>) and panics on a zero divisor. The texture
  update reads \<^verbatim>\<open>gif.pixels[gif.currentFrame]\<close>, which panics out of range.
\<close>

definition NextFrame :: "(real \<Rightarrow> real) \<Rightarrow> GifImage \<Rightarrow> GifImage option" where
  "NextFrame f32 gif =
     do {
       t \<leftarrow> index (Timing gif) (currentFrame gif);
       let gif1 = gif\<lparr>lastFrameTime := f32 (lastFrameTime gif - f32 (of_int t))\<rparr>;
       if Frames gif1 = 0 then None
       else do {
         let gif2 = gif1\<lparr>currentFrame := (currentFrame gif1 + 1) smod Frames gif1\<rparr>;
         let gif3 = (if lastFrameTime gif2 < 0 then gif2\<lparr>lastFrameTime := 0\<rparr> else gif2);
         _ \<leftarrow> index (pixels gif3) (currentFrame gif3);
         Some gif3
       }
     }"

definition Step :: "(real \<Rightarrow> real) \<Rightarrow> GifImage \<Rightarrow> real \<Rightarrow> GifImage option" where
  "Step f32 gif timeSinceLastStep =
     (let gif1 = gif\<lparr>lastFrameTime := f32 (lastFrameTime gif + f32 (timeSinceLastStep * 100))\<rparr> in
      do {
        t \<leftarrow> index (Timing gif1) (currentFrame gif1);
        let diff = f32 (lastFrameTime gif1 - f32 (of_int t));
        if diff \<ge> 0 then NextFrame f32 gif1 else Some gif1
      })"

definition Reset :: "GifImage \<Rightarrow> GifImage" where
  "Reset gif = gif\<lparr>currentFrame := 0, lastFrameTime := 0\<rparr>"

definition CurrentFrame :: "GifImage \<Rightarrow> int" where
  "CurrentFrame gif = currentFrame gif"

definition CurrentTiming :: "GifImage \<Rightarrow> int option" where
  "CurrentTiming gif = index (Timing gif) (currentFrame gif)"

text \<open>A caller's request, and a run of requests from left to right.\<close>

datatype call = CallStep real | CallNextFrame | CallReset

fun perform :: "(real \<Rightarrow> real) \<Rightarrow> call \<Rightarrow> GifImage \<Rightarrow> GifImage option" where
  "perform f32 (CallStep dt) gif = Step f32 gif dt"
| "perform f32 CallNextFrame gif = NextFrame f32 gif"
| "perform f32 CallReset gif = Some (Reset gif)"

subsection \<open>The registry of unloadables\<close>

text \<open>
  An \<^verbatim>\<open>Unloadable\<close> interface value is \<open>None\<close> (\<^verbatim>\<open>nil\<close>) or \<open>Some h\<close> for a resource \<open>h\<close>.
  The two package variables form the state, together with \<open>unloaded\<close>: the resources whose
  \<^verbatim>\<open>Unload\<close> method has run, oldest first.
\<close>

record 'h registry =
  unloadingAll :: bool
  unloadables :: "'h option list"
  unloaded :: "'h list"

definition initial_registry :: "'h registry" where
  "initial_registry = \<lparr>unloadingAll = False, unloadables = replicate 100 None, unloaded = []\<rparr>"

definition addUnloadable :: "'h option \<Rightarrow> 'h registry \<Rightarrow> 'h registry" where
  "addUnloadable unloadable w = w\<lparr>unloadables := unloadables w @ [unloadable]\<rparr>"

text \<open>The search loop of \<^verbatim>\<open>removeUnloadable\<close>: the first index holding the value.\<close>

fun firstIndex :: "'a \<Rightarrow> 'a list \<Rightarrow> nat option" where
  "firstIndex v [] = None"
| "firstIndex v (u # us) = (if u = v then Some 0 else map_option Suc (firstIndex v us))"

definition removeUnloadable :: "'h option \<Rightarrow> 'h registry \<Rightarrow> 'h registry" where
  "removeUnloadable unloadable w =
     (if \<not> unloadingAll w then
        (case firstIndex unloadable (unloadables w) of
           None \<Rightarrow> w
         | Some i \<Rightarrow>
            (let us = unloadables w;
                 us1 = us[i := us ! (length us - 1)];
                 us2 = us1[length us1 - 1 := None]
             in w\<lparr>unloadables := take (length us2 - 1) us2\<rparr>))
      else w)"

text \<open>
  Modelled from the spec: the \<^verbatim>\<open>Unload\<close> methods of the registered resources are not
  among the sources. A resource's unload hook releases it (recorded in \<open>unloaded\<close>) and,
  as the comment on \<^verbatim>\<open>removeUnloadable\<close> says, unregisters it.
\<close>

definition Unload :: "'h \<Rightarrow> 'h registry \<Rightarrow> 'h registry" where
  "Unload h w = removeUnloadable (Some h) (w\<lparr>unloaded := unloaded w @ [h]\<rparr>)"

text \<open>The loop of \<^verbatim>\<open>UnloadAll\<close> over the slice as it was when the loop began.\<close>

fun unloadEach :: "'h option list \<Rightarrow> 'h registry \<Rightarrow> 'h registry" where
  "unloadEach [] w = w"
| "unloadEach (ul # uls) w =
     unloadEach uls (case ul of None \<Rightarrow> w | Some h \<Rightarrow> Unload h w)"

definition UnloadAll :: "'h registry \<Rightarrow> 'h registry" where
  "UnloadAll w =
     (let w1 = w\<lparr>unloadingAll := True\<rparr>;
          w2 = unloadEach (unloadables w1) w1;
          w3 = w2\<lparr>unloadingAll := False\<rparr>
      in w3\<lparr>unloadables := take 0 (unloadables w3)\<rparr>)"

text \<open>The resources among the entries of the slice, in order (the \<^verbatim>\<open>nil\<close> entries dropped).\<close>

fun resources :: "'h option list \<Rightarrow> 'h list" where
  "resources [] = []"
| "resources (None # us) = resources us"
| "resources (Some h # us) = h # resources us"

text \<open>The unload hooks that ran between the states \<open>w\<close> and \<open>w'\<close>.\<close>

definition released_by :: "'h registry \<Rightarrow> 'h registry \<Rightarrow> 'h list" where
  "released_by w w' = drop (length (unloaded w)) (unloaded w')"

subsection \<open>Notions used in the statements\<close>

text \<open>
  What is assumed of \<^verbatim>\<open>float32\<close> rounding: it is monotone, exact at zero and on its own
  results, and the rounded difference of two \<^verbatim>\<open>float32\<close> values is negative when the exact
  difference is (gradual underflow). Rounding to nearest has these properties in the
  finite range.
\<close>

definition rounding :: "(real \<Rightarrow> real) \<Rightarrow> bool" where
  "rounding f32 \<longleftrightarrow>
     mono f32 \<and> f32 0 = 0 \<and> (\<forall>x. f32 (f32 x) = f32 x) \<and>
     (\<forall>x y. f32 x < f32 y \<longrightarrow> f32 (f32 x - f32 y) < 0)"

text \<open>
  The states of a player: at least one frame, a delay and a pixel buffer for each frame,
  the cursor within the frames and a non-negative accumulated time.
\<close>

definition player_state :: "GifImage \<Rightarrow> bool" where
  "player_state gif \<longleftrightarrow>
     1 \<le> Frames gif \<and> int (length (Timing gif)) = Frames gif \<and>
     int (length (pixels gif)) = Frames gif \<and>
     0 \<le> currentFrame gif \<and> currentFrame gif < Frames gif \<and> 0 \<le> lastFrameTime gif"

text \<open>
  The advance operation as the specification words it: add the scaled time; if the
  accumulated time has reached the current delay, subtract the delay, clamp at zero and
  move the cursor by one modulo the frame count.
\<close>

definition advance_spec :: "(real \<Rightarrow> real) \<Rightarrow> GifImage \<Rightarrow> real \<Rightarrow> GifImage" where
  "advance_spec f32 gif dt =
     (let t = f32 (lastFrameTime gif + f32 (dt * 100));
          delay = f32 (of_int (Timing gif ! nat (currentFrame gif)))
      in if t \<ge> delay
         then gif\<lparr>currentFrame := (currentFrame gif + 1) mod Frames gif,
                  lastFrameTime := max 0 (f32 (t - delay))\<rparr>
         else gif\<lparr>lastFrameTime := t\<rparr>)"

subsection \<open>The compositor as a function of the decoded frames\<close>

text \<open>
  The conversion \<^verbatim>\<open>r.NewColor(uint8(red), uint8(green), uint8(blue), uint8(alpha))\<close> of a sample,
  and the alpha channel of a sample.
\<close>

definition toColor :: "RGBA \<Rightarrow> Color" where
  "toColor rgba = (case rgba of (red, green, blue, alpha) \<Rightarrow>
     NewColor (ucast red) (ucast green) (ucast blue) (ucast alpha))"

definition alphaOf :: "RGBA \<Rightarrow> 32 word" where
  "alphaOf rgba = (case rgba of (red, green, blue, alpha) \<Rightarrow> alpha)"

text \<open>
  The colour that \<open>pixelBody\<close> writes for a frame with disposal \<open>d\<close>, as a function of what
  it reads: the disposal \<open>d0\<close> of frame 0, the frame's own sample, the samples of frame 0 and
  of the frame \<^verbatim>\<open>previousNonDisposed\<close> at the same position, and the accumulated colour
  \<open>acc\<close>. A disposal code outside the four constants matches no case of the \<^verbatim>\<open>switch\<close>; the
  pixel keeps the zero value of the fresh slice.
\<close>

definition pixelValue :: "FrameDisposal \<Rightarrow> FrameDisposal \<Rightarrow> RGBA \<Rightarrow> RGBA \<Rightarrow> RGBA \<Rightarrow> Color \<Rightarrow> Color" where
  "pixelValue d d0 own first prev acc =
     (if d = FrameDisposalNone then toColor own
      else if d = FrameDisposalDontDispose then (if alphaOf own > 0 then toColor own else acc)
      else if d = FrameDisposalRestoreBackground then
        (if d0 = FrameDisposalDontDispose \<and> alphaOf own = 0 then toColor first else toColor own)
      else if d = FrameDisposalRestorePrevious then
        (if alphaOf own = 0 then toColor prev else toColor own)
      else NewColor 0 0 0 0)"

definition known :: "FrameDisposal \<Rightarrow> bool" where
  "known d \<longleftrightarrow> d = FrameDisposalNone \<or> d = FrameDisposalDontDispose \<or>
     d = FrameDisposalRestoreBackground \<or> d = FrameDisposalRestorePrevious"

text \<open>
  What holds of the locals \<open>t\<close> throughout the two pixel loops of a frame that began in \<open>s\<close>.
\<close>

definition loop_inv :: "nat \<Rightarrow> Paletted \<Rightarrow> locals \<Rightarrow> locals \<Rightarrow> bool" where
  "loop_inv n img s t \<longleftrightarrow>
     length (pixels' t) = n \<and> length (clumative t) = n \<and>
     disposals t = disposals s \<and> images t = images s \<and>
     (previousNonDisposed t = previousNonDisposed s \<or> previousNonDisposed t = img)"

text \<open>
  The disposal of frame \<open>j\<close> as the loop converts it: \<^verbatim>\<open>FrameDisposal(gif.Disposal[j])\<close>.
\<close>

definition disposalOf :: "GIF \<Rightarrow> nat \<Rightarrow> FrameDisposal" where
  "disposalOf gif j = uint (gif_Disposal gif ! j)"

text \<open>
  The index of the frame that \<^verbatim>\<open>previousNonDisposed\<close> refers to when frame \<open>i\<close> begins: the pointer
  starts at frame 0 and is assigned in the cases \<^verbatim>\<open>FrameDisposalNone\<close> and
  \<^verbatim>\<open>FrameDisposalDontDispose\<close> only.
\<close>

fun previousIndex :: "GIF \<Rightarrow> nat \<Rightarrow> nat" where
  "previousIndex gif 0 = 0"
| "previousIndex gif (Suc j) =
     (if disposalOf gif j = FrameDisposalNone \<or> disposalOf gif j = FrameDisposalDontDispose
      then j else previousIndex gif j)"

text \<open>
  The same index as the specification words it: the reference moves to every frame whose
  disposal is not \<^verbatim>\<open>RestorePrevious\<close>.
\<close>

fun previousIndex_spec :: "GIF \<Rightarrow> nat \<Rightarrow> nat" where
  "previousIndex_spec gif 0 = 0"
| "previousIndex_spec gif (Suc j) =
     (if disposalOf gif j \<noteq> FrameDisposalRestorePrevious then j else previousIndex_spec gif j)"

text \<open>
  The accumulation buffer at pixel \<open>(x, y)\<close> when frame \<open>i\<close> begins, and the resolved pixel of
  frame \<open>i\<close>.
\<close>

fun canvasBefore :: "GIF \<Rightarrow> nat \<Rightarrow> nat \<Rightarrow> nat \<Rightarrow> Color" where
  "canvasBefore gif 0 x y = NewColor 0 0 0 0"
| "canvasBefore gif (Suc j) x y =
     (if known (disposalOf gif j)
      then pixelValue (disposalOf gif j) (disposalOf gif 0)
             (At (gif_Image gif ! j) (int x) (int y)) (At (gif_Image gif ! 0) (int x) (int y))
             (At (gif_Image gif ! previousIndex gif j) (int x) (int y)) (canvasBefore gif j x y)
      else canvasBefore gif j x y)"

definition resolvedPixel :: "GIF \<Rightarrow> nat \<Rightarrow> nat \<Rightarrow> nat \<Rightarrow> Color" where
  "resolvedPixel gif i x y =
     pixelValue (disposalOf gif i) (disposalOf gif 0)
       (At (gif_Image gif ! i) (int x) (int y)) (At (gif_Image gif ! 0) (int x) (int y))
       (At (gif_Image gif ! previousIndex gif i) (int x) (int y)) (canvasBefore gif i x y)"

text \<open>
  What holds of the locals when frame \<open>i\<close> begins, on a canvas of \<open>W\<close> by \<open>H\<close> pixels.
\<close>

definition frames_inv :: "GIF \<Rightarrow> nat \<Rightarrow> nat \<Rightarrow> nat \<Rightarrow> locals \<Rightarrow> bool" where
  "frames_inv gif W H i s \<longleftrightarrow>
     length (disposals s) = length (gif_Image gif) \<and>
     length (images s) = length (gif_Image gif) \<and>
     length (clumative s) = W * H \<and>
     (\<forall>j<i. disposals s ! j = disposalOf gif j) \<and>
     previousNonDisposed s = gif_Image gif ! previousIndex gif i \<and>
     (\<forall>x<W. \<forall>y<H. clumative s ! (x + y * W) = canvasBefore gif i x y) \<and>
     (\<forall>j<i. length (images s ! j) = W * H \<and>
            (\<forall>x<W. \<forall>y<H. images s ! j ! (x + y * W) = resolvedPixel gif j x y))"

subsection \<open>Example inputs\<close>

text \<open>A frame with rectangle \<open>(x0, y0)\<close>-\<open>(x1, y1)\<close> that samples to \<open>c\<close> everywhere.\<close>

definition plain_frame :: "int \<Rightarrow> int \<Rightarrow> int \<Rightarrow> int \<Rightarrow> RGBA \<Rightarrow> Paletted" where
  "plain_frame x0 y0 x1 y1 c =
     \<lparr>Rect = \<lparr>Min_pt = \<lparr>X = x0, Y = y0\<rparr>, Max_pt = \<lparr>X = x1, Y = y1\<rparr>\<rparr>, At = (\<lambda>x y. c)\<rparr>"

definition offset_gif :: GIF where
  "offset_gif = \<lparr>gif_Image = [plain_frame 5 5 10 10 (0, 0, 0, 0)], gif_Delay = [10],
                  gif_Disposal = [0]\<rparr>"

definition three_frame_player :: GifImage where
  "three_frame_player =
     \<lparr>Width = 1, Height = 1, Frames = 3, Timing = [10, 10, 10], Disposal = [0, 0, 0],
      pixels = [[NewColor 0 0 0 0], [NewColor 0 0 0 0], [NewColor 0 0 0 0]],
      currentFrame = 0, lastFrameTime = 0\<rparr>"

definition zero_delay_player :: GifImage where
  "zero_delay_player =
     \<lparr>Width = 1, Height = 1, Frames = 2, Timing = [0, 7], Disposal = [0, 0],
      pixels = [[NewColor 0 0 0 0], [NewColor 0 0 0 0]],
      currentFrame = 0, lastFrameTime = 0\<rparr>"

definition two_entry_registry :: "nat registry" where
  "two_entry_registry = addUnloadable (Some 2) (addUnloadable (Some 1) initial_registry)"

text \<open>
  Samples: opaque red, opaque green and fully transparent.
\<close>

definition opaque_red :: RGBA where "opaque_red = (65535, 0, 0, 65535)"

definition opaque_green :: RGBA where "opaque_green = (0, 65535, 0, 65535)"

definition transparent :: RGBA where "transparent = (0, 0, 0, 0)"

text \<open>
  Two frames on a canvas of 2 by 1: opaque red with disposal None, then fully transparent
  with disposal RestoreBackground; and the player that loading it gives.
\<close>

definition background_gif :: GIF where
  "background_gif =
     \<lparr>gif_Image = [plain_frame 0 0 2 1 opaque_red, plain_frame 0 0 2 1 transparent],
      gif_Delay = [10, 20], gif_Disposal = [0, 2]\<rparr>"

definition background_player :: GifImage where
  "background_player =
     \<lparr>Width = 2, Height = 1, Frames = 2, Timing = [10, 20], Disposal = [0, 2],
      pixels = [[NewColor 255 0 0 255, NewColor 255 0 0 255],
                [NewColor 0 0 0 0, NewColor 0 0 0 0]],
      currentFrame = 0, lastFrameTime = 0\<rparr>"

text \<open>
  Three frames on a canvas of 2 by 2: red with disposal None, green with disposal
  RestoreBackground, fully transparent with disposal RestorePrevious; and the player that
  loading it gives.
\<close>

definition restore_gif :: GIF where
  "restore_gif =
     \<lparr>gif_Image = [plain_frame 0 0 2 2 opaque_red, plain_frame 0 0 2 2 opaque_green,
                   plain_frame 0 0 2 2 transparent],
      gif_Delay = [10, 10, 10], gif_Disposal = [0, 2, 3]\<rparr>"

definition restore_player :: GifImage where
  "restore_player =
     \<lparr>Width = 2, Height = 2, Frames = 3, Timing = [10, 10, 10], Disposal = [0, 2, 3],
      pixels = [replicate 4 (NewColor 255 0 0 255), replicate 4 (NewColor 0 255 0 255),
                replicate 4 (NewColor 255 0 0 255)],
      currentFrame = 0, lastFrameTime = 0\<rparr>"

text \<open>
  One opaque red frame of 1 by 1 with disposal RestoreBackground, and the locals after the
  loop has processed it, first with \<^verbatim>\<open>previousNonDisposed\<close> referring to the frame itself, then
  to a green frame.
\<close>

definition single_restore_gif :: GIF where
  "single_restore_gif =
     \<lparr>gif_Image = [plain_frame 0 0 1 1 opaque_red], gif_Delay = [10], gif_Disposal = [2]\<rparr>"

definition after_single_restore :: locals where
  "after_single_restore =
     \<lparr>disposals = [2], images = [[NewColor 255 0 0 255]], clumative = [NewColor 255 0 0 255],
      previousNonDisposed = plain_frame 0 0 1 1 opaque_red, pixels' = [NewColor 255 0 0 255]\<rparr>"

definition after_restore_over_green :: locals where
  "after_restore_over_green =
     \<lparr>disposals = [2], images = [[NewColor 255 0 0 255]], clumative = [NewColor 255 0 0 255],
      previousNonDisposed = plain_frame 0 0 1 1 opaque_green, pixels' = [NewColor 255 0 0 255]\<rparr>"

text \<open>
  Thirty frames of 5 by 5, and a single frame with an empty rectangle.
\<close>

definition thirty_frame_gif :: GIF where
  "thirty_frame_gif =
     \<lparr>gif_Image = replicate 30 (plain_frame 0 0 5 5 opaque_red), gif_Delay = replicate 30 10,
      gif_Disposal = replicate 30 0\<rparr>"

definition flat_gif :: GIF where
  "flat_gif =
     \<lparr>gif_Image = [plain_frame 0 0 0 0 transparent], gif_Delay = [10], gif_Disposal = [0]\<rparr>"

text \<open>
  A file system in which every file opens, and a decoder that delivers a given animation.
\<close>

definition opens :: "string \<Rightarrow> string + unit" where
  "opens fileName = Inr ()"

definition decodes_to :: "GIF \<Rightarrow> unit \<Rightarrow> string + GIF" where
  "decodes_to gif file = Inr gif"

section \<open>Properties\<close>

subsection \<open>Dimensions\<close>

lemma dimensionsLoop_eq:
  "dimensionsLoop imgs (lx, ly, hx, hy) =
     (Min (insert lx ((\<lambda>img. X (Min_pt (Rect img))) ` set imgs)),
      Min (insert ly ((\<lambda>img. Y (Min_pt (Rect img))) ` set imgs)),
      Max (insert hx ((\<lambda>img. X (Max_pt (Rect img))) ` set imgs)),
      Max (insert hy ((\<lambda>img. Y (Max_pt (Rect img))) ` set imgs)))"
proof (induction imgs arbitrary: lx ly hx hy)
  case Nil
  then show ?case by simp
next
  case (Cons img imgs)
  have mn: "Min (insert (if a < l then a else l) S) = Min (insert l (insert a S))"
    if "finite S" for a l :: int and S
    using that by (cases "S = {}") (auto simp: min_def)
  have mx: "Max (insert (if a > l then a else l) S) = Max (insert l (insert a S))"
    if "finite S" for a l :: int and S
    using that by (cases "S = {}") (auto simp: max_def)
  show ?case
    by (simp add: Cons.IH mn mx del: Min.insert Max.insert)
qed

text \<open>
  C6, as the code has it. The four running extremes start at 0, so the width and the height
  are those of the bounding box of the frames' rectangles together with the origin: the
  largest of 0 and the maxima minus the smallest of 0 and the minima.
\<close>

theorem getGifDimensions_box_with_origin:
  "getGifDimensions gif =
     (Max (insert 0 ((\<lambda>img. X (Max_pt (Rect img))) ` set (gif_Image gif)))
        - Min (insert 0 ((\<lambda>img. X (Min_pt (Rect img))) ` set (gif_Image gif))),
      Max (insert 0 ((\<lambda>img. Y (Max_pt (Rect img))) ` set (gif_Image gif)))
        - Min (insert 0 ((\<lambda>img. Y (Min_pt (Rect img))) ` set (gif_Image gif))))"
  by (simp add: getGifDimensions_def dimensionsLoop_eq)

theorem getGifDimensions_box_with_origin_witness:
  "getGifDimensions offset_gif = (10, 10)"
  using getGifDimensions_box_with_origin [of offset_gif]
  by (simp add: offset_gif_def plain_frame_def)

text \<open>
  C6 as stated fails: a single frame with rectangle (5, 5)-(10, 10) has a bounding box of
  5 by 5, and the code returns 10 by 10.
\<close>

theorem getGifDimensions_not_bounding_box:
  "getGifDimensions offset_gif = (10, 10) \<and>
   boundingBox_spec (map Rect (gif_Image offset_gif)) = (5, 5)"
  by (simp add: getGifDimensions_def boundingBox_spec_def offset_gif_def plain_frame_def)

subsection \<open>Playback\<close>

lemma rounding_nonneg: "rounding f32 \<Longrightarrow> 0 \<le> x \<Longrightarrow> 0 \<le> f32 x"
  unfolding rounding_def by (metis monoD)

lemma rounding_nonpos: "rounding f32 \<Longrightarrow> x \<le> 0 \<Longrightarrow> f32 x \<le> 0"
  unfolding rounding_def by (metis monoD)

lemma rounding_exact: "rounding (\<lambda>x. x)"
  by (simp add: rounding_def mono_def)

lemma rounding_diff_sign:
  assumes "rounding f32"
  shows "0 \<le> f32 (f32 x - f32 y) \<longleftrightarrow> f32 y \<le> f32 x"
proof
  assume "0 \<le> f32 (f32 x - f32 y)"
  with assms show "f32 y \<le> f32 x" unfolding rounding_def by (meson not_le)
next
  assume "f32 y \<le> f32 x"
  then show "0 \<le> f32 (f32 x - f32 y)" using rounding_nonneg [OF assms] by simp
qed

lemma smod_nonneg: "0 \<le> a \<Longrightarrow> 0 < b \<Longrightarrow> (a::int) smod b = a mod b"
  by (simp add: smod_int_alt_def sgn_if)

lemma NextFrame_player_state:
  assumes "player_state gif"
  shows "NextFrame f32 gif =
           Some (gif\<lparr>currentFrame := (currentFrame gif + 1) mod Frames gif,
                     lastFrameTime :=
                       max 0 (f32 (lastFrameTime gif
                                     - f32 (of_int (Timing gif ! nat (currentFrame gif)))))\<rparr>)"
  using assms
  by (auto simp: NextFrame_def player_state_def index_def smod_nonneg Let_def max_def)

lemma Step_eq_advance_spec:
  assumes "rounding f32" "player_state gif"
  shows "Step f32 gif dt = Some (advance_spec f32 gif dt)"
proof -
  let ?t = "f32 (lastFrameTime gif + f32 (dt * 100))"
  let ?gif1 = "gif\<lparr>lastFrameTime := ?t\<rparr>"
  let ?d = "Timing gif ! nat (currentFrame gif)"
  have ix: "index (Timing ?gif1) (currentFrame ?gif1) = Some ?d"
    using assms(2) by (simp add: index_def player_state_def)
  have sign: "0 \<le> f32 (?t - f32 (of_int ?d)) \<longleftrightarrow> f32 (of_int ?d) \<le> ?t"
    using rounding_diff_sign [OF assms(1), of "lastFrameTime gif + f32 (dt * 100)" "of_int ?d"]
    by simp
  show ?thesis
  proof (cases "f32 (of_int ?d) \<le> ?t")
    case True
    have nf: "NextFrame f32 ?gif1 =
          Some (gif\<lparr>currentFrame := (currentFrame gif + 1) mod Frames gif,
                    lastFrameTime := max 0 (f32 (?t - f32 (of_int ?d)))\<rparr>)"
      using assms(2)
      by (auto simp: NextFrame_def player_state_def index_def smod_nonneg Let_def max_def)
    show ?thesis
      using True sign ix nf by (simp add: Step_def advance_spec_def Let_def)
  next
    case False
    then show ?thesis
      using sign ix by (simp add: Step_def advance_spec_def Let_def)
  qed
qed

lemma advance_spec_player_state:
  assumes "rounding f32" "player_state gif" "0 \<le> dt"
  shows "player_state (advance_spec f32 gif dt)"
proof -
  have "0 \<le> f32 (lastFrameTime gif + f32 (dt * 100))"
    using assms
    by (intro rounding_nonneg [OF assms(1)] add_nonneg_nonneg) (simp_all add: player_state_def)
  then show ?thesis
    using assms(2) by (auto simp: advance_spec_def player_state_def Let_def)
qed

lemma three_frame_player_state: "player_state three_frame_player"
  by (simp add: player_state_def three_frame_player_def)

lemma zero_delay_player_state: "player_state zero_delay_player"
  by (simp add: player_state_def zero_delay_player_def)

subsection \<open>The registry\<close>

lemma firstIndex_None: "firstIndex v us = None \<longleftrightarrow> v \<notin> set us"
  by (induction us) auto

lemma firstIndex_Some: "firstIndex v us = Some i \<Longrightarrow> i < length us \<and> us ! i = v"
  by (induction us arbitrary: i) (auto split: if_splits)

lemma removeUnloadable_absent: "u \<notin> set (unloadables w) \<Longrightarrow> removeUnloadable u w = w"
  using firstIndex_None [of u "unloadables w"] by (simp add: removeUnloadable_def)

lemma swap_remove_mset:
  assumes "i < length us"
  shows "mset (take (length (us[i := us ! (length us - 1)]) - 1)
                 ((us[i := us ! (length us - 1)])
                    [length (us[i := us ! (length us - 1)]) - 1 := None]))
         = mset us - {#us ! i#}"
proof -
  from assms have ne: "us \<noteq> []" by auto
  let ?vs = "us[i := last us]"
  have l: "us ! (length us - Suc 0) = last us" using ne by (simp add: last_conv_nth)
  have "take (length ?vs - 1) (?vs[length ?vs - 1 := None]) = butlast ?vs"
    by (simp add: butlast_conv_take)
  moreover have "last ?vs = last us"
    using ne assms by (cases "i = length us - 1") (simp_all add: last_conv_nth nth_list_update)
  moreover have "mset (butlast ?vs) = mset ?vs - {#last ?vs#}"
  proof -
    have "?vs \<noteq> []" using ne by simp
    then have "mset ?vs = add_mset (last ?vs) (mset (butlast ?vs))"
      by (metis append_butlast_last_id mset.simps(2) mset_append union_mset_add_mset_right
          add.right_neutral mset.simps(1))
    then show ?thesis by simp
  qed
  moreover have "mset ?vs = add_mset (last us) (mset us - {#us ! i#})"
    using assms by (simp add: mset_update)
  ultimately show ?thesis by (simp add: l)
qed

lemma removeUnloadable_mset:
  assumes "\<not> unloadingAll w"
  shows "mset (unloadables (removeUnloadable u w)) = mset (unloadables w) - {#u#}"
proof (cases "firstIndex u (unloadables w)")
  case None
  then have "u \<notin> set (unloadables w)" by (simp add: firstIndex_None)
  then show ?thesis using None assms by (simp add: removeUnloadable_def)
next
  case (Some i)
  then have "i < length (unloadables w)" "unloadables w ! i = u"
    using firstIndex_Some by fastforce+
  then show ?thesis
    using Some assms swap_remove_mset [of i "unloadables w"]
    by (simp add: removeUnloadable_def Let_def)
qed

lemma unloadEach_sweeping:
  "unloadingAll w \<Longrightarrow> unloadEach us w = w\<lparr>unloaded := unloaded w @ resources us\<rparr>"
proof (induction us arbitrary: w)
  case Nil
  then show ?case by simp
next
  case (Cons u us)
  show ?case
  proof (cases u)
    case None
    then show ?thesis using Cons by simp
  next
    case (Some h)
    have "Unload h w = w\<lparr>unloaded := unloaded w @ [h]\<rparr>"
      using Cons.prems by (simp add: Unload_def removeUnloadable_def)
    then show ?thesis using Some Cons by simp
  qed
qed

lemma UnloadAll_eq:
  "UnloadAll w = w\<lparr>unloadingAll := False, unloadables := [],
                   unloaded := unloaded w @ resources (unloadables w)\<rparr>"
  by (simp add: UnloadAll_def Let_def unloadEach_sweeping)

lemma count_resources: "count_list (resources us) h = count_list us (Some h)"
  by (induction us rule: resources.induct) auto

lemma released_by_UnloadAll: "released_by w (UnloadAll w) = resources (unloadables w)"
  by (simp add: released_by_def UnloadAll_eq)

subsection \<open>Claims about playback\<close>

text \<open>
  C4. From every player state and for every time step \<open>dt \<ge> 0\<close>, one call of \<open>Step\<close> adds
  \<open>dt * 100\<close> to the accumulated time; if the accumulated time has then reached the delay of
  the current frame, it subtracts that delay, clamps the result at 0 and moves the cursor by
  one modulo the frame count; otherwise the cursor stays. The cursor therefore moves by at
  most one position per call. With delays 10, 10, 10 a step of 50 moves it by exactly one.
\<close>

theorem Step_one_frame_per_call:
  assumes "rounding f32" and "player_state gif" and "0 \<le> dt"
  shows "Step f32 gif dt = Some (advance_spec f32 gif dt) \<and>
         map_option currentFrame (Step f32 gif dt)
           \<in> {Some (currentFrame gif), Some ((currentFrame gif + 1) mod Frames gif)} \<and>
         (Timing gif = [10, 10, 10] \<and> dt = 50 \<longrightarrow>
            map_option currentFrame (Step f32 gif dt) = Some ((currentFrame gif + 1) mod 3))"
proof -
  have eq: "Step f32 gif dt = Some (advance_spec f32 gif dt)"
    by (rule Step_eq_advance_spec [OF assms(1,2)])
  have one: "currentFrame (advance_spec f32 gif dt) = currentFrame gif \<or>
             currentFrame (advance_spec f32 gif dt) = (currentFrame gif + 1) mod Frames gif"
    by (simp add: advance_spec_def Let_def)
  have ex: "currentFrame (advance_spec f32 gif dt) = (currentFrame gif + 1) mod 3"
    if t: "Timing gif = [10, 10, 10]" and d: "dt = 50"
  proof -
    from assms(2) t have fr: "Frames gif = 3" and cur: "0 \<le> currentFrame gif" "currentFrame gif < 3"
      and time: "0 \<le> lastFrameTime gif"
      by (auto simp: player_state_def)
    then have "nat (currentFrame gif) < 3" by simp
    then have "nat (currentFrame gif) = 0 \<or> nat (currentFrame gif) = 1 \<or> nat (currentFrame gif) = 2"
      by arith
    then have delay: "Timing gif ! nat (currentFrame gif) = 10"
      using t by auto
    have m: "mono f32" and idem: "f32 (f32 5000) = f32 5000"
      using assms(1) by (simp_all add: rounding_def)
    have "f32 5000 \<le> lastFrameTime gif + f32 5000" using time by simp
    then have "f32 (f32 5000) \<le> f32 (lastFrameTime gif + f32 5000)" by (rule monoD [OF m])
    moreover have "f32 10 \<le> f32 5000" by (rule monoD [OF m]) simp
    ultimately have "f32 10 \<le> f32 (lastFrameTime gif + f32 5000)" using idem by simp
    then show ?thesis
      using delay fr d by (simp add: advance_spec_def Let_def)
  qed
  show ?thesis using eq one ex by auto
qed

theorem Step_one_frame_per_call_witness:
  "rounding (\<lambda>x. x) \<and> player_state three_frame_player \<and> (0::real) \<le> 50 \<and>
   Step (\<lambda>x. x) three_frame_player 50
     = Some (three_frame_player\<lparr>currentFrame := 1, lastFrameTime := 4990\<rparr>)"
proof -
  have r: "rounding (\<lambda>x. x)" by (rule rounding_exact)
  have p: "player_state three_frame_player" by (rule three_frame_player_state)
  have d: "(0::real) \<le> 50" by simp
  show ?thesis
    using r p d Step_one_frame_per_call [OF r p d]
    by (simp add: advance_spec_def three_frame_player_def)
qed

text \<open>
  C8. In a player state whose current frame has a zero or negative delay, one call of \<open>Step\<close>
  returns (it neither panics nor loops: \<open>Step\<close> is not recursive and divides by nothing that
  depends on the delay) and moves the cursor by exactly one frame modulo the frame count.
\<close>

theorem Step_nonpositive_delay:
  assumes "rounding f32" and "player_state gif" and "0 \<le> dt"
      and "Timing gif ! nat (currentFrame gif) \<le> 0"
  shows "map_option currentFrame (Step f32 gif dt) = Some ((currentFrame gif + 1) mod Frames gif)"
proof -
  have "f32 (of_int (Timing gif ! nat (currentFrame gif))) \<le> 0"
    using assms(4) by (intro rounding_nonpos [OF assms(1)]) simp
  moreover have "0 \<le> f32 (lastFrameTime gif + f32 (dt * 100))"
    using assms
    by (intro rounding_nonneg [OF assms(1)] add_nonneg_nonneg) (simp_all add: player_state_def)
  ultimately show ?thesis
    using Step_eq_advance_spec [OF assms(1,2), of dt] by (simp add: advance_spec_def Let_def)
qed

theorem Step_nonpositive_delay_witness:
  "rounding (\<lambda>x. x) \<and> player_state zero_delay_player \<and> (0::real) \<le> 0 \<and>
   Timing zero_delay_player ! nat (currentFrame zero_delay_player) \<le> 0 \<and>
   map_option currentFrame (Step (\<lambda>x. x) zero_delay_player 0) = Some 1"
proof -
  have r: "rounding (\<lambda>x. x)" by (rule rounding_exact)
  have p: "player_state zero_delay_player" by (rule zero_delay_player_state)
  have d: "(0::real) \<le> 0" by simp
  have z: "Timing zero_delay_player ! nat (currentFrame zero_delay_player) \<le> 0"
    by (simp add: zero_delay_player_def)
  show ?thesis
    using r p d z Step_nonpositive_delay [OF r p d z]
    by (simp add: zero_delay_player_def)
qed

subsection \<open>Claims about the registry\<close>

text \<open>
  C9. Removing a resource that is not in the registry (never registered, or registered
  once and already removed) leaves the registry unchanged. The sweep \<open>UnloadAll\<close> runs the
  unload hook of a resource once for each entry the registry holds for it, so once for a
  resource registered once; after \<open>removeUnloadable\<close> has taken an entry out, the sweep runs
  the hook one time less, so not at all for a resource that was registered once; and the
  sweep empties the registry, so that a second sweep runs no hook.
\<close>

theorem registry_removal_and_sweep:
  "(Some h \<notin> set (unloadables w) \<longrightarrow> removeUnloadable (Some h) w = w) \<and>
   count_list (released_by w (UnloadAll w)) h = count_list (unloadables w) (Some h) \<and>
   (\<not> unloadingAll w \<longrightarrow>
      count_list (released_by (removeUnloadable (Some h) w)
                    (UnloadAll (removeUnloadable (Some h) w))) h
        = count_list (unloadables w) (Some h) - 1) \<and>
   released_by (UnloadAll w) (UnloadAll (UnloadAll w)) = []"
proof -
  have a: "Some h \<notin> set (unloadables w) \<longrightarrow> removeUnloadable (Some h) w = w"
    by (simp add: removeUnloadable_absent)
  have b: "count_list (released_by w' (UnloadAll w')) h = count_list (unloadables w') (Some h)"
    for w' :: "'a registry"
    by (simp add: released_by_UnloadAll count_resources)
  have c: "count_list (unloadables (removeUnloadable (Some h) w)) (Some h)
             = count_list (unloadables w) (Some h) - 1" if "\<not> unloadingAll w"
    using removeUnloadable_mset [OF that, of "Some h"]
    by (metis count_mset count_diff count_single)
  have d: "released_by (UnloadAll w) (UnloadAll (UnloadAll w)) = []"
    by (simp add: released_by_UnloadAll) (simp add: UnloadAll_eq)
  show ?thesis using a b c d by simp
qed

lemma two_entry_registry_eq:
  "two_entry_registry =
     \<lparr>unloadingAll = False, unloadables = replicate 100 None @ [Some 1, Some 2], unloaded = []\<rparr>"
  by (simp add: two_entry_registry_def addUnloadable_def initial_registry_def)

theorem registry_removal_and_sweep_witness:
  "Some 3 \<notin> set (unloadables two_entry_registry) \<and>
   removeUnloadable (Some 3) two_entry_registry = two_entry_registry \<and>
   \<not> unloadingAll two_entry_registry \<and>
   released_by two_entry_registry (UnloadAll two_entry_registry) = [1, 2] \<and>
   released_by (removeUnloadable (Some 1) two_entry_registry)
     (UnloadAll (removeUnloadable (Some 1) two_entry_registry)) = [2]"
proof -
  have a: "Some 3 \<notin> set (unloadables two_entry_registry)"
    by (simp add: two_entry_registry_eq)
  have b: "\<not> unloadingAll two_entry_registry"
    by (simp add: two_entry_registry_eq)
  have c: "released_by two_entry_registry (UnloadAll two_entry_registry) = [1, 2]"
    by code_simp
  have d: "released_by (removeUnloadable (Some 1) two_entry_registry)
     (UnloadAll (removeUnloadable (Some 1) two_entry_registry)) = [2]"
    by code_simp
  show ?thesis
    using a b c d registry_removal_and_sweep [of 3 two_entry_registry] by simp
qed

subsection \<open>Loops\<close>

lemma forEach_append:
  "forEach (as @ bs) f s = (case forEach as f s of None \<Rightarrow> None | Some t \<Rightarrow> forEach bs f t)"
  by (induction as arbitrary: s) (auto split: option.splits)

lemma forEach_map: "forEach (map g as) f s = forEach as (\<lambda>a. f (g a)) s"
  by (induction as arbitrary: s) (auto split: option.splits)

lemma forEach_product:
  "forEach ys (\<lambda>y. forEach xs (f y)) s = forEach (List.product ys xs) (\<lambda>(y, x). f y x) s"
  by (induction ys arbitrary: s) (auto simp: forEach_append forEach_map split: option.splits)

lemma forEach_total:
  assumes "I s" and "\<And>a t. a \<in> set as \<Longrightarrow> I t \<Longrightarrow> \<exists>t'. f a t = Some t' \<and> I t'"
  shows "\<exists>s'. forEach as f s = Some s' \<and> I s'"
  using assms
proof (induction as arbitrary: s)
  case Nil
  then show ?case by simp
next
  case (Cons a as)
  from Cons.prems obtain t where t: "f a s = Some t" "I t" by (meson list.set_intros(1))
  from Cons.IH [OF t(2)] Cons.prems(2) obtain s' where "forEach as f t = Some s'" "I s'"
    by (meson list.set_intros(2))
  with t show ?case by simp
qed

lemma forEach_preserves:
  assumes "forEach as f s = Some s'" and "Q s"
      and "\<And>a t t'. a \<in> set as \<Longrightarrow> Q t \<Longrightarrow> f a t = Some t' \<Longrightarrow> Q t'"
  shows "Q s'"
  using assms
proof (induction as arbitrary: s)
  case Nil
  then show ?case by simp
next
  case (Cons a as)
  from Cons.prems(1) obtain t where t: "f a s = Some t" "forEach as f t = Some s'"
    by (auto split: option.splits)
  have "Q t" using Cons.prems(2,3) t(1) by (meson list.set_intros(1))
  then show ?case using Cons.IH [OF t(2)] Cons.prems(3) by (meson list.set_intros(2))
qed

lemma forEach_at:
  assumes run: "forEach as f s = Some s'" and mem: "a \<in> set as" and dist: "distinct as"
      and start: "P s"
      and before: "\<And>b t t'. b \<in> set as \<Longrightarrow> b \<noteq> a \<Longrightarrow> P t \<Longrightarrow> f b t = Some t' \<Longrightarrow> P t'"
      and at: "\<And>t t'. P t \<Longrightarrow> f a t = Some t' \<Longrightarrow> Q t'"
      and after: "\<And>b t t'. b \<in> set as \<Longrightarrow> b \<noteq> a \<Longrightarrow> Q t \<Longrightarrow> f b t = Some t' \<Longrightarrow> Q t'"
  shows "Q s'"
proof -
  from mem obtain pre post where split: "as = pre @ a # post" by (meson split_list)
  with dist have fresh: "a \<notin> set pre" "a \<notin> set post" by auto
  from run split obtain t where t: "forEach pre f s = Some t" "forEach (a # post) f t = Some s'"
    by (auto simp: forEach_append split: option.splits)
  then obtain u where u: "f a t = Some u" "forEach post f u = Some s'"
    by (auto split: option.splits)
  have "P t"
    by (rule forEach_preserves [where Q = P, OF t(1) start]) (use before fresh split in auto)
  then have "Q u" using at u(1) by blast
  show ?thesis
    by (rule forEach_preserves [where Q = Q, OF u(2) \<open>Q u\<close>]) (use after fresh split in auto)
qed

subsection \<open>The pixel loops of one frame\<close>

lemma index_Some: "k < length xs \<Longrightarrow> index xs (int k) = Some (xs ! k)"
  by (simp add: index_def)

lemma store_Some: "k < length xs \<Longrightarrow> store xs (int k) v = Some (xs[k := v])"
  by (simp add: store_def)

lemma index_pixel:
  "x + y * W < length xs \<Longrightarrow> index xs (int x + int y * int W) = Some (xs ! (x + y * W))"
  using index_Some [of "x + y * W" xs] by simp

lemma store_pixel:
  "x + y * W < length xs \<Longrightarrow> store xs (int x + int y * int W) v = Some (xs[x + y * W := v])"
  using store_Some [of "x + y * W" xs v] by simp

lemma pixelBody_eq:
  assumes k: "x + y * W < length (pixels' s)" "length (clumative s) = length (pixels' s)"
      and i: "i < length (disposals s)" and z: "0 < length (disposals s)"
      and g: "gif_Image gif \<noteq> []"
  shows "pixelBody gif (int W) i img y x s =
           Some (if known (disposals s ! i)
                 then s\<lparr>pixels' := (pixels' s)[x + y * W :=
                            pixelValue (disposals s ! i) (disposals s ! 0) (At img (int x) (int y))
                              (At (gif_Image gif ! 0) (int x) (int y))
                              (At (previousNonDisposed s) (int x) (int y))
                              (clumative s ! (x + y * W))],
                         clumative := (clumative s)[x + y * W :=
                            pixelValue (disposals s ! i) (disposals s ! 0) (At img (int x) (int y))
                              (At (gif_Image gif ! 0) (int x) (int y))
                              (At (previousNonDisposed s) (int x) (int y))
                              (clumative s ! (x + y * W))],
                         previousNonDisposed :=
                           (if disposals s ! i = FrameDisposalNone \<or> disposals s ! i = FrameDisposalDontDispose
                            then img else previousNonDisposed s)\<rparr>
                 else s)"
proof -
  obtain red green blue alpha where own: "At img (int x) (int y) = (red, green, blue, alpha)"
    by (cases "At img (int x) (int y)") auto
  obtain r0 g0 b0 a0 where first: "At (gif_Image gif ! 0) (int x) (int y) = (r0, g0, b0, a0)"
    by (cases "At (gif_Image gif ! 0) (int x) (int y)") auto
  obtain rp gp bp ap where prev: "At (previousNonDisposed s) (int x) (int y) = (rp, gp, bp, ap)"
    by (cases "At (previousNonDisposed s) (int x) (int y)") auto
  have k2: "x + y * W < length (clumative s)" using k by simp
  have g0: "index (gif_Image gif) 0 = Some (gif_Image gif ! 0)"
    using g by (simp add: index_def)
  have d0: "index (disposals s) 0 = Some (disposals s ! 0)"
    using z by (simp add: index_def)
  note defs = FrameDisposalNone_def FrameDisposalDontDispose_def
    FrameDisposalRestoreBackground_def FrameDisposalRestorePrevious_def
  show ?thesis
    unfolding pixelBody_def own Let_def
    using k k2 i
    by (simp add: index_Some index_pixel store_pixel g0 d0 known_def pixelValue_def toColor_def
          alphaOf_def own first prev defs)
qed

lemma pixel_index_bound: "x < W \<Longrightarrow> y < H \<Longrightarrow> x + y * W < W * H" for x y W H :: nat
proof -
  assume x: "x < W" and y: "y < H"
  have "x + y * W < W + y * W" using x by simp
  also have "\<dots> = Suc y * W" by simp
  also have "\<dots> \<le> H * W" using y by (intro mult_le_mono1) simp
  finally show ?thesis by (simp add: mult.commute)
qed

lemma pixel_index_inj:
  "x < W \<Longrightarrow> x0 < W \<Longrightarrow> x + y * W = x0 + y0 * W \<Longrightarrow> x = x0 \<and> y = y0" for x y W :: nat
proof -
  assume x: "x < W" and x0: "x0 < W" and e: "x + y * W = x0 + y0 * W"
  have "(x + y * W) mod W = x" "(x0 + y0 * W) mod W = x0" using x x0 by simp_all
  with e have xx: "x = x0" by simp
  have "(x + y * W) div W = y" "(x0 + y0 * W) div W = y0" using x x0 by simp_all
  with e have "y = y0" by simp
  with xx show ?thesis by simp
qed

lemma pixelValue_prev:
  "d \<noteq> FrameDisposalRestorePrevious \<Longrightarrow>
     pixelValue d d0 own first p acc = pixelValue d d0 own first p' acc"
  by (simp add: pixelValue_def)

lemma pixelValue_unknown: "\<not> known d \<Longrightarrow> pixelValue d d0 own first p acc = NewColor 0 0 0 0"
  by (simp add: pixelValue_def known_def)

lemma pixel_step:
  assumes "loop_inv (W * H) img s t" and "x < W" and "y < H"
      and "i < length (disposals s)" and "gif_Image gif \<noteq> []"
  shows "pixelBody gif (int W) i img y x t =
           Some (if known (disposals s ! i)
                 then t\<lparr>pixels' := (pixels' t)[x + y * W :=
                            pixelValue (disposals s ! i) (disposals s ! 0) (At img (int x) (int y))
                              (At (gif_Image gif ! 0) (int x) (int y))
                              (At (previousNonDisposed t) (int x) (int y))
                              (clumative t ! (x + y * W))],
                         clumative := (clumative t)[x + y * W :=
                            pixelValue (disposals s ! i) (disposals s ! 0) (At img (int x) (int y))
                              (At (gif_Image gif ! 0) (int x) (int y))
                              (At (previousNonDisposed t) (int x) (int y))
                              (clumative t ! (x + y * W))],
                         previousNonDisposed :=
                           (if disposals s ! i = FrameDisposalNone \<or> disposals s ! i = FrameDisposalDontDispose
                            then img else previousNonDisposed t)\<rparr>
                 else t)"
proof -
  have k: "x + y * W < W * H" using assms(2,3) by (rule pixel_index_bound)
  have "x + y * W < length (pixels' t)" "length (clumative t) = length (pixels' t)"
    "i < length (disposals t)" "0 < length (disposals t)" "disposals t = disposals s"
    using assms(1,4) k by (auto simp: loop_inv_def)
  then show ?thesis
    using pixelBody_eq [of x y W t i gif img] assms(5) by simp
qed

lemma pixel_step_inv:
  assumes "loop_inv (W * H) img s t" and "x < W" and "y < H"
      and "i < length (disposals s)" and "gif_Image gif \<noteq> []"
  shows "\<exists>t'. pixelBody gif (int W) i img y x t = Some t' \<and> loop_inv (W * H) img s t'"
  using assms(1) unfolding pixel_step [OF assms]
  by (auto simp: loop_inv_def)

lemma pixelLoops_total:
  assumes "length (pixels' s) = W * H" and "length (clumative s) = W * H"
      and "i < length (disposals s)" and "gif_Image gif \<noteq> []"
  shows "\<exists>s'. forEach (List.product [0..<H] [0..<W]) (\<lambda>(y, x). pixelBody gif (int W) i img y x) s
                 = Some s' \<and> loop_inv (W * H) img s s'"
proof (rule forEach_total)
  show "loop_inv (W * H) img s s" using assms(1,2) by (simp add: loop_inv_def)
next
  fix a t
  assume a: "a \<in> set (List.product [0..<H] [0..<W])" and inv: "loop_inv (W * H) img s t"
  obtain y x where yx: "a = (y, x)" by (cases a)
  with a have "x < W" "y < H" by simp_all
  then show "\<exists>t'. (case a of (y, x) \<Rightarrow> pixelBody gif (int W) i img y x) t = Some t'
                  \<and> loop_inv (W * H) img s t'"
    using pixel_step_inv [OF inv _ _ assms(3,4)] yx by simp
qed

lemma pixelLoops_pointwise:
  assumes run: "forEach (List.product [0..<H] [0..<W]) (\<lambda>(y, x). pixelBody gif (int W) i img y x) s
                  = Some s'"
      and len: "length (pixels' s) = W * H" "length (clumative s) = W * H"
      and i: "i < length (disposals s)" and g: "gif_Image gif \<noteq> []"
      and x0: "x0 < W" and y0: "y0 < H"
  shows "pixels' s' ! (x0 + y0 * W) =
           (if known (disposals s ! i)
            then pixelValue (disposals s ! i) (disposals s ! 0) (At img (int x0) (int y0))
                   (At (gif_Image gif ! 0) (int x0) (int y0))
                   (At (previousNonDisposed s) (int x0) (int y0))
                   (clumative s ! (x0 + y0 * W))
            else pixels' s ! (x0 + y0 * W)) \<and>
         clumative s' ! (x0 + y0 * W) =
           (if known (disposals s ! i)
            then pixelValue (disposals s ! i) (disposals s ! 0) (At img (int x0) (int y0))
                   (At (gif_Image gif ! 0) (int x0) (int y0))
                   (At (previousNonDisposed s) (int x0) (int y0))
                   (clumative s ! (x0 + y0 * W))
            else clumative s ! (x0 + y0 * W))"
proof -
  let ?k = "x0 + y0 * W"
  let ?d = "disposals s ! i"
  let ?body = "\<lambda>(y, x). pixelBody gif (int W) i img y x"
  let ?L = "List.product [0..<H] [0..<W]"
  define V where "V = pixelValue ?d (disposals s ! 0) (At img (int x0) (int y0))
                   (At (gif_Image gif ! 0) (int x0) (int y0))
                   (At (previousNonDisposed s) (int x0) (int y0)) (clumative s ! ?k)"
  define P where "P t \<longleftrightarrow> loop_inv (W * H) img s t \<and> pixels' t ! ?k = pixels' s ! ?k \<and>
                    clumative t ! ?k = clumative s ! ?k \<and>
                    (?d = FrameDisposalRestorePrevious \<longrightarrow> previousNonDisposed t = previousNonDisposed s)"
    for t
  define Q where "Q t \<longleftrightarrow> loop_inv (W * H) img s t \<and>
                    pixels' t ! ?k = (if known ?d then V else pixels' s ! ?k) \<and>
                    clumative t ! ?k = (if known ?d then V else clumative s ! ?k)" for t
  note defs = FrameDisposalNone_def FrameDisposalDontDispose_def
    FrameDisposalRestoreBackground_def FrameDisposalRestorePrevious_def
  have kb: "?k < W * H" using x0 y0 by (rule pixel_index_bound)
  have other: "x + y * W \<noteq> ?k" if "(y, x) \<in> set ?L" "(y, x) \<noteq> (y0, x0)" for x y
    using that x0 pixel_index_inj [of x W x0 y y0] by auto
  have mem: "(y0, x0) \<in> set ?L" using x0 y0 by simp
  have dist: "distinct ?L" by (simp add: distinct_product)
  have start: "P s" using len by (simp add: P_def loop_inv_def)
  have before: "P t'" if "b \<in> set ?L" "b \<noteq> (y0, x0)" "P t" "?body b t = Some t'" for b t t'
  proof -
    obtain y x where b: "b = (y, x)" by (cases b)
    with that(1) have xy: "x < W" "y < H" by auto
    have inv: "loop_inv (W * H) img s t" using that(3) by (simp add: P_def)
    have ne: "x + y * W \<noteq> ?k" using other that(1,2) b by simp
    from that(4) have t': "pixelBody gif (int W) i img y x t = Some t'" by (simp add: b)
    have "loop_inv (W * H) img s t'"
      using pixel_step_inv [OF inv xy i g] t' by simp
    then show ?thesis
      using t' that(3) ne unfolding pixel_step [OF inv xy i g] P_def
      by (auto simp: defs split: if_splits)
  qed
  have at: "Q t'" if "P t" "?body (y0, x0) t = Some t'" for t t'
  proof -
    have inv: "loop_inv (W * H) img s t" using that(1) by (simp add: P_def)
    from that(2) have t': "pixelBody gif (int W) i img y0 x0 t = Some t'" by simp
    have inv': "loop_inv (W * H) img s t'"
      using pixel_step_inv [OF inv x0 y0 i g] t' by simp
    have kt: "?k < length (pixels' t)" "?k < length (clumative t)"
      using inv kb by (simp_all add: loop_inv_def)
    have val: "pixelValue ?d (disposals s ! 0) (At img (int x0) (int y0))
                 (At (gif_Image gif ! 0) (int x0) (int y0))
                 (At (previousNonDisposed t) (int x0) (int y0)) (clumative t ! ?k) = V"
    proof (cases "?d = FrameDisposalRestorePrevious")
      case True
      then show ?thesis using that(1) by (simp add: P_def V_def)
    next
      case False
      then show ?thesis
        using that(1) pixelValue_prev [OF False] unfolding P_def V_def by metis
    qed
    show ?thesis
      using t' that(1) inv' kt val unfolding pixel_step [OF inv x0 y0 i g] P_def Q_def
      by (auto split: if_splits)
  qed
  have after: "Q t'" if "b \<in> set ?L" "b \<noteq> (y0, x0)" "Q t" "?body b t = Some t'" for b t t'
  proof -
    obtain y x where b: "b = (y, x)" by (cases b)
    with that(1) have xy: "x < W" "y < H" by auto
    have inv: "loop_inv (W * H) img s t" using that(3) by (simp add: Q_def)
    have ne: "x + y * W \<noteq> ?k" using other that(1,2) b by simp
    from that(4) have t': "pixelBody gif (int W) i img y x t = Some t'" by (simp add: b)
    have "loop_inv (W * H) img s t'"
      using pixel_step_inv [OF inv xy i g] t' by simp
    then show ?thesis
      using t' that(3) ne unfolding pixel_step [OF inv xy i g] Q_def
      by (auto split: if_splits)
  qed
  have "Q s'"
    by (rule forEach_at [where P = P and Q = Q, OF run mem dist start before at after])
  then show ?thesis by (simp add: Q_def V_def)
qed

lemma pixelLoops_prev:
  assumes run: "forEach (List.product [0..<H] [0..<W]) (\<lambda>(y, x). pixelBody gif (int W) i img y x) s
                  = Some s'"
      and len: "length (pixels' s) = W * H" "length (clumative s) = W * H"
      and i: "i < length (disposals s)" and g: "gif_Image gif \<noteq> []"
  shows "previousNonDisposed s' =
           (if (disposals s ! i = FrameDisposalNone \<or> disposals s ! i = FrameDisposalDontDispose)
               \<and> 0 < W * H
            then img else previousNonDisposed s)"
proof -
  let ?d = "disposals s ! i"
  let ?body = "\<lambda>(y, x). pixelBody gif (int W) i img y x"
  let ?L = "List.product [0..<H] [0..<W]"
  have inv0: "loop_inv (W * H) img s s" using len by (simp add: loop_inv_def)
  show ?thesis
  proof (cases "(?d = FrameDisposalNone \<or> ?d = FrameDisposalDontDispose) \<and> 0 < W * H")
    case True
    then have kn: "known ?d" by (auto simp: known_def)
    from True have mem: "(0, 0) \<in> set ?L" by simp
    have dist: "distinct ?L" by (simp add: distinct_product)
    define P where "P t \<longleftrightarrow> loop_inv (W * H) img s t" for t
    define Q where "Q t \<longleftrightarrow> loop_inv (W * H) img s t \<and> previousNonDisposed t = img" for t
    have step: "pixelBody gif (int W) i img y x t = Some t' \<Longrightarrow> loop_inv (W * H) img s t \<Longrightarrow>
                  (y, x) \<in> set ?L \<Longrightarrow> Q t'" for x y t t'
    proof -
      assume t': "pixelBody gif (int W) i img y x t = Some t'" and inv: "loop_inv (W * H) img s t"
        and m: "(y, x) \<in> set ?L"
      from m have xy: "x < W" "y < H" by simp_all
      have "loop_inv (W * H) img s t'" using pixel_step_inv [OF inv xy i g] t' by simp
      then show "Q t'"
        using t' True kn unfolding pixel_step [OF inv xy i g] Q_def by auto
    qed
    have "Q s'"
    proof (rule forEach_at [where P = P and Q = Q, OF run mem dist])
      show "P s" using inv0 by (simp add: P_def)
    next
      fix b t t' assume b: "b \<in> set ?L" "P t" "?body b t = Some t'"
      obtain y x where "b = (y, x)" by (cases b)
      with b show "P t'" using step [of y x t t'] by (simp add: P_def Q_def)
    next
      fix t t' assume "P t" "?body (0, 0) t = Some t'"
      then show "Q t'" using step [of 0 0 t t'] mem by (simp add: P_def)
    next
      fix b t t' assume b: "b \<in> set ?L" "Q t" "?body b t = Some t'"
      obtain y x where "b = (y, x)" by (cases b)
      with b show "Q t'" using step [of y x t t'] by (simp add: Q_def)
    qed
    then show ?thesis using True by (simp add: Q_def)
  next
    case False
    define Q where "Q t \<longleftrightarrow> loop_inv (W * H) img s t \<and> previousNonDisposed t = previousNonDisposed s"
      for t
    have "Q s'"
    proof (rule forEach_preserves [where Q = Q, OF run])
      show "Q s" using inv0 by (simp add: Q_def)
    next
      fix a t t' assume a: "a \<in> set ?L" and q: "Q t" and t': "?body a t = Some t'"
      obtain y x where yx: "a = (y, x)" by (cases a)
      with a have xy: "x < W" "y < H" by simp_all
      have inv: "loop_inv (W * H) img s t" using q by (simp add: Q_def)
      have "0 < W * H" using xy by simp
      with False have nd: "?d \<noteq> FrameDisposalNone" "?d \<noteq> FrameDisposalDontDispose" by auto
      from t' yx have st: "pixelBody gif (int W) i img y x t = Some t'" by simp
      have "loop_inv (W * H) img s t'" using pixel_step_inv [OF inv xy i g] st by simp
      then show "Q t'"
        using st q nd unfolding pixel_step [OF inv xy i g] Q_def by (auto split: if_splits)
    qed
    then show ?thesis using False by (auto simp: Q_def)
  qed
qed

lemma frameBody_effect:
  assumes c: "i < length (gif_Disposal gif)" and ds: "i < length (disposals s)"
      and im: "i < length (images s)" and cl: "length (clumative s) = W * H"
      and g: "gif_Image gif \<noteq> []"
  shows "\<exists>s'. frameBody gif (int W) (int H) (i, img) s = Some s' \<and>
           disposals s' = (disposals s)[i := disposalOf gif i] \<and>
           images s' = (images s)[i := pixels' s'] \<and>
           length (pixels' s') = W * H \<and> length (clumative s') = W * H \<and>
           previousNonDisposed s' =
             (if (disposalOf gif i = FrameDisposalNone \<or> disposalOf gif i = FrameDisposalDontDispose)
                 \<and> 0 < W * H
              then img else previousNonDisposed s) \<and>
           (\<forall>x<W. \<forall>y<H.
              pixels' s' ! (x + y * W) =
                pixelValue (disposalOf gif i) ((disposals s)[i := disposalOf gif i] ! 0)
                  (At img (int x) (int y)) (At (gif_Image gif ! 0) (int x) (int y))
                  (At (previousNonDisposed s) (int x) (int y)) (clumative s ! (x + y * W)) \<and>
              clumative s' ! (x + y * W) =
                (if known (disposalOf gif i) then pixels' s' ! (x + y * W)
                 else clumative s ! (x + y * W)))"
proof -
  let ?d = "disposalOf gif i"
  define s1 where "s1 = s\<lparr>disposals := (disposals s)[i := ?d],
                          pixels' := replicate (W * H) (NewColor 0 0 0 0)\<rparr>"
  let ?body = "\<lambda>(y, x). pixelBody gif (int W) i img y x"
  let ?L = "List.product [0..<H] [0..<W]"
  have len1: "length (pixels' s1) = W * H" "length (clumative s1) = W * H"
    and i1: "i < length (disposals s1)" and d1: "disposals s1 ! i = ?d"
    using cl ds by (simp_all add: s1_def)
  from pixelLoops_total [OF len1 i1 g, of img]
  obtain s2 where run: "forEach ?L ?body s1 = Some s2" and inv: "loop_inv (W * H) img s1 s2"
    by blast
  have point: "pixels' s2 ! (x + y * W) =
           (if known ?d
            then pixelValue ?d (disposals s1 ! 0) (At img (int x) (int y))
                   (At (gif_Image gif ! 0) (int x) (int y))
                   (At (previousNonDisposed s1) (int x) (int y)) (clumative s1 ! (x + y * W))
            else pixels' s1 ! (x + y * W)) \<and>
         clumative s2 ! (x + y * W) =
           (if known ?d
            then pixelValue ?d (disposals s1 ! 0) (At img (int x) (int y))
                   (At (gif_Image gif ! 0) (int x) (int y))
                   (At (previousNonDisposed s1) (int x) (int y)) (clumative s1 ! (x + y * W))
            else clumative s1 ! (x + y * W))" if "x < W" "y < H" for x y
    using pixelLoops_pointwise [OF run len1 i1 g that] d1 by simp
  have prev: "previousNonDisposed s2 =
           (if (?d = FrameDisposalNone \<or> ?d = FrameDisposalDontDispose) \<and> 0 < W * H
            then img else previousNonDisposed s1)"
    using pixelLoops_prev [OF run len1 i1 g] d1 by simp
  have nat_mult: "nat (int W * int H) = W * H" by (simp add: nat_mult_distrib)
  have im2: "i < length (images s2)" "images s2 = images s" "disposals s2 = (disposals s)[i := ?d]"
    "length (pixels' s2) = W * H" "length (clumative s2) = W * H"
    using inv im by (simp_all add: loop_inv_def s1_def)
  have eq: "frameBody gif (int W) (int H) (i, img) s = Some (s2\<lparr>images := (images s)[i := pixels' s2]\<rparr>)"
    using c ds im2 run
    by (simp add: frameBody_def index_Some store_Some disposalOf_def nat_mult forEach_product
          s1_def Let_def)
  have zero: "pixels' s1 ! (x + y * W) = NewColor 0 0 0 0" if "x < W" "y < H" for x y
    using pixel_index_bound [OF that] by (simp add: s1_def)
  show ?thesis
    unfolding eq
    using im2 prev point zero
    by (auto simp: s1_def pixelValue_unknown)
qed

lemma frameBody_Some_D:
  assumes "frameBody gif (int W) (int H) (i, img) s = Some s'"
      and "length (clumative s) = W * H" and "gif_Image gif \<noteq> []"
  shows "i < length (gif_Disposal gif) \<and> i < length (disposals s) \<and> i < length (images s)"
proof -
  from assms(1) obtain code ds s2 where
    code: "index (gif_Disposal gif) (int i) = Some code"
    and ds: "store (disposals s) (int i) (uint code) = Some ds"
    and run: "forEach (List.product [0..<H] [0..<W]) (\<lambda>(y, x). pixelBody gif (int W) i img y x)
                (s\<lparr>disposals := ds, pixels' := replicate (W * H) (NewColor 0 0 0 0)\<rparr>) = Some s2"
    and im: "store (images s2) (int i) (pixels' s2) \<noteq> None"
    by (auto simp: frameBody_def Let_def bind_eq_Some_conv forEach_product nat_mult_distrib)
  have c: "i < length (gif_Disposal gif)" using code by (simp add: index_def split: if_splits)
  have d: "i < length (disposals s)" "ds = (disposals s)[i := uint code]"
    using ds by (auto simp: store_def split: if_splits)
  let ?s1 = "s\<lparr>disposals := ds, pixels' := replicate (W * H) (NewColor 0 0 0 0)\<rparr>"
  have "\<exists>t. forEach (List.product [0..<H] [0..<W]) (\<lambda>(y, x). pixelBody gif (int W) i img y x) ?s1
              = Some t \<and> loop_inv (W * H) img ?s1 t"
    by (rule pixelLoops_total) (use assms(2,3) d in simp_all)
  with run have "loop_inv (W * H) img ?s1 s2" by simp
  then have "images s2 = images s" by (simp add: loop_inv_def)
  with im have "i < length (images s)" by (simp add: store_def split: if_splits)
  with c d show ?thesis by simp
qed

lemma frameBody_no_code:
  "\<not> i < length (gif_Disposal gif) \<Longrightarrow> frameBody gif w h (i, img) s = None"
  by (simp add: frameBody_def index_def)

subsection \<open>The loop over the frames\<close>

lemma frame_step:
  assumes inv: "frames_inv gif W H i s" and i: "i < length (gif_Image gif)"
      and c: "i < length (gif_Disposal gif)" and n: "0 < W * H"
  shows "\<exists>s'. frameBody gif (int W) (int H) (i, gif_Image gif ! i) s = Some s' \<and>
              frames_inv gif W H (Suc i) s'"
proof -
  let ?img = "gif_Image gif ! i"
  let ?d = "disposalOf gif i"
  from inv have len: "length (disposals s) = length (gif_Image gif)"
      "length (images s) = length (gif_Image gif)" "length (clumative s) = W * H"
    and dsp: "\<And>j. j < i \<Longrightarrow> disposals s ! j = disposalOf gif j"
    and prev: "previousNonDisposed s = gif_Image gif ! previousIndex gif i"
    and canvas: "\<And>x y. x < W \<Longrightarrow> y < H \<Longrightarrow> clumative s ! (x + y * W) = canvasBefore gif i x y"
    and imgs: "\<And>j. j < i \<Longrightarrow> length (images s ! j) = W * H"
      "\<And>j x y. j < i \<Longrightarrow> x < W \<Longrightarrow> y < H \<Longrightarrow> images s ! j ! (x + y * W) = resolvedPixel gif j x y"
    by (auto simp: frames_inv_def)
  have g: "gif_Image gif \<noteq> []" using i by auto
  have ds: "i < length (disposals s)" and im: "i < length (images s)" using i len by simp_all
  from frameBody_effect [OF c ds im len(3) g, of ?img]
  obtain s' where run: "frameBody gif (int W) (int H) (i, ?img) s = Some s'"
    and d': "disposals s' = (disposals s)[i := ?d]"
    and i': "images s' = (images s)[i := pixels' s']"
    and l': "length (pixels' s') = W * H" "length (clumative s') = W * H"
    and p': "previousNonDisposed s' =
             (if (?d = FrameDisposalNone \<or> ?d = FrameDisposalDontDispose) \<and> 0 < W * H
              then ?img else previousNonDisposed s)"
    and px: "\<And>x y. x < W \<Longrightarrow> y < H \<Longrightarrow>
              pixels' s' ! (x + y * W) =
                pixelValue ?d ((disposals s)[i := ?d] ! 0)
                  (At ?img (int x) (int y)) (At (gif_Image gif ! 0) (int x) (int y))
                  (At (previousNonDisposed s) (int x) (int y)) (clumative s ! (x + y * W))"
    and cv: "\<And>x y. x < W \<Longrightarrow> y < H \<Longrightarrow>
              clumative s' ! (x + y * W) =
                (if known ?d then pixels' s' ! (x + y * W) else clumative s ! (x + y * W))"
    by blast
  have d0: "(disposals s)[i := ?d] ! 0 = disposalOf gif 0"
    using ds dsp [of 0] by (cases i) simp_all
  have res: "pixels' s' ! (x + y * W) = resolvedPixel gif i x y" if "x < W" "y < H" for x y
    using px [OF that] canvas [OF that] by (simp add: d0 prev resolvedPixel_def)
  have "frames_inv gif W H (Suc i) s'"
    unfolding frames_inv_def
  proof (intro conjI allI impI)
    show "length (disposals s') = length (gif_Image gif)" using d' len by simp
    show "length (images s') = length (gif_Image gif)" using i' len by simp
    show "length (clumative s') = W * H" by (rule l')
    show "disposals s' ! j = disposalOf gif j" if "j < Suc i" for j
      using that d' ds dsp [of j] by (cases "j = i") simp_all
    show "previousNonDisposed s' = gif_Image gif ! previousIndex gif (Suc i)"
      using p' n prev by simp
    show "clumative s' ! (x + y * W) = canvasBefore gif (Suc i) x y" if "x < W" "y < H" for x y
      using cv [OF that] res [OF that] canvas [OF that] by (simp add: resolvedPixel_def)
    show "length (images s' ! j) = W * H" if "j < Suc i" for j
      using that i' im l' imgs(1) [of j] by (cases "j = i") simp_all
    show "images s' ! j ! (x + y * W) = resolvedPixel gif j x y"
      if "j < Suc i" "x < W" "y < H" for j x y
      using that i' im res imgs(2) [of j x y] by (cases "j = i") simp_all
  qed
  with run show ?thesis by blast
qed

lemma frames_loop:
  assumes start: "frames_inv gif W H 0 s0" and n: "0 < W * H"
      and m: "m \<le> length (gif_Image gif)" "m \<le> length (gif_Disposal gif)"
  shows "\<exists>s. forEach (take m (enumerate 0 (gif_Image gif))) (frameBody gif (int W) (int H)) s0
               = Some s \<and> frames_inv gif W H m s"
  using m
proof (induction m)
  case 0
  then show ?case using start by simp
next
  case (Suc m)
  then obtain s where s: "forEach (take m (enumerate 0 (gif_Image gif)))
                            (frameBody gif (int W) (int H)) s0 = Some s"
      and inv: "frames_inv gif W H m s"
    by auto
  from Suc.prems have lt: "m < length (gif_Image gif)" "m < length (gif_Disposal gif)" by simp_all
  from frame_step [OF inv lt n] obtain s' where
    s': "frameBody gif (int W) (int H) (m, gif_Image gif ! m) s = Some s'"
    "frames_inv gif W H (Suc m) s'"
    by blast
  have "take (Suc m) (enumerate 0 (gif_Image gif))
          = take m (enumerate 0 (gif_Image gif)) @ [(m, gif_Image gif ! m)]"
    using lt(1) by (simp add: take_Suc_conv_app_nth nth_enumerate_eq)
  then show ?case using s s' by (simp add: forEach_append)
qed

lemma initial_frames_inv:
  "frames_inv gif W H 0 (initialLocals (length (gif_Image gif)) (W * H) (gif_Image gif ! 0))"
  using pixel_index_bound [of _ W _ H] by (simp add: frames_inv_def initialLocals_def)

lemma previousIndex_bound:
  "previousIndex gif i = 0 \<or>
     (previousIndex gif i < i \<and>
      (disposalOf gif (previousIndex gif i) = FrameDisposalNone \<or>
       disposalOf gif (previousIndex gif i) = FrameDisposalDontDispose))"
  by (induction i) auto

lemma previousIndex_latest:
  "previousIndex gif i < j \<Longrightarrow> j < i \<Longrightarrow>
     disposalOf gif j \<noteq> FrameDisposalNone \<and> disposalOf gif j \<noteq> FrameDisposalDontDispose"
proof (induction i)
  case 0
  then show ?case by simp
next
  case (Suc i)
  then show ?case by (cases "j = i") (auto split: if_splits)
qed

subsection \<open>The loader\<close>

lemma getGifDimensions_nonneg:
  assumes "getGifDimensions gif = (w, h)"
  shows "0 \<le> w \<and> 0 \<le> h"
proof -
  have mn: "Min (insert 0 (f ` set (gif_Image gif))) \<le> 0" for f :: "Paletted \<Rightarrow> int"
    by (rule Min_le) simp_all
  have mx: "0 \<le> Max (insert 0 (f ` set (gif_Image gif)))" for f :: "Paletted \<Rightarrow> int"
    by (rule Max_ge) simp_all
  have "w = Max (insert 0 ((\<lambda>img. X (Max_pt (Rect img))) ` set (gif_Image gif)))
              - Min (insert 0 ((\<lambda>img. X (Min_pt (Rect img))) ` set (gif_Image gif)))"
       "h = Max (insert 0 ((\<lambda>img. Y (Max_pt (Rect img))) ` set (gif_Image gif)))
              - Min (insert 0 ((\<lambda>img. Y (Min_pt (Rect img))) ` set (gif_Image gif)))"
    using assms by (simp_all add: getGifDimensions_def dimensionsLoop_eq)
  then show ?thesis
    using mn [of "\<lambda>img. X (Min_pt (Rect img))"] mx [of "\<lambda>img. X (Max_pt (Rect img))"]
      mn [of "\<lambda>img. Y (Min_pt (Rect img))"] mx [of "\<lambda>img. Y (Max_pt (Rect img))"]
    by linarith
qed

lemma getGifDimensions_nat:
  assumes "getGifDimensions gif = (w, h)"
  obtains W H where "w = int W" "h = int H"
  using getGifDimensions_nonneg [OF assms] by (metis nat_0_le)

lemma loadDecoded_unfold:
  assumes dims: "getGifDimensions gif = (int W, int H)"
      and f: "gif_Image gif \<noteq> []" "length (gif_Image gif) \<le> W * H"
  shows "loadDecoded gif =
           (case forEach (enumerate 0 (gif_Image gif)) (frameBody gif (int W) (int H))
                   (initialLocals (length (gif_Image gif)) (W * H) (gif_Image gif ! 0)) of
              None \<Rightarrow> Inl Panic
            | Some s \<Rightarrow>
                Inr \<lparr>Width = int W, Height = int H, Frames = int (length (gif_Image gif)),
                     Timing = gif_Delay gif, Disposal = disposals s, pixels = images s,
                     currentFrame = 0, lastFrameTime = 0\<rparr>)"
proof -
  have ix: "index (gif_Image gif) 0 = Some (gif_Image gif ! 0)" using f(1) by (simp add: index_def)
  have n: "nat (int W * int H) = W * H" by (simp add: nat_mult_distrib)
  have le: "\<not> int W * int H < int (length (gif_Image gif))"
    using f(2) by (metis of_nat_mult of_nat_le_iff not_less)
  have nn: "\<not> int W * int H < 0" by (simp add: not_less)
  show ?thesis
    unfolding loadDecoded_def dims prod.case Let_def ix option.case n nat_int
    using le nn by simp
qed

lemma loadDecoded_Inr:
  assumes dims: "getGifDimensions gif = (int W, int H)"
      and f: "gif_Image gif \<noteq> []" "length (gif_Image gif) \<le> W * H"
      and c: "length (gif_Image gif) \<le> length (gif_Disposal gif)"
  shows "\<exists>s. frames_inv gif W H (length (gif_Image gif)) s \<and>
             loadDecoded gif =
               Inr \<lparr>Width = int W, Height = int H, Frames = int (length (gif_Image gif)),
                    Timing = gif_Delay gif, Disposal = disposals s, pixels = images s,
                    currentFrame = 0, lastFrameTime = 0\<rparr>"
proof -
  let ?F = "length (gif_Image gif)"
  have "0 < ?F" using f(1) by simp
  then have pos: "0 < W * H" using f(2) by linarith
  from frames_loop [OF initial_frames_inv pos order_refl c]
  obtain s where run: "forEach (enumerate 0 (gif_Image gif)) (frameBody gif (int W) (int H))
                         (initialLocals ?F (W * H) (gif_Image gif ! 0)) = Some s"
      and inv: "frames_inv gif W H ?F s"
    by (auto simp: enumerate_eq_zip)
  show ?thesis
    using inv run by (auto simp: loadDecoded_unfold [OF dims f])
qed

lemma loadDecoded_Panic:
  assumes dims: "getGifDimensions gif = (int W, int H)"
      and bad: "gif_Image gif = [] \<or> W * H < length (gif_Image gif) \<or>
                length (gif_Disposal gif) < length (gif_Image gif)"
  shows "loadDecoded gif = Inl Panic"
proof (cases "gif_Image gif = [] \<or> W * H < length (gif_Image gif)")
  case True
  then show ?thesis
  proof
    assume "gif_Image gif = []"
    then show ?thesis by (simp add: loadDecoded_def dims index_def)
  next
    assume "W * H < length (gif_Image gif)"
    then have "int W * int H < int (length (gif_Image gif))"
      by (metis of_nat_mult of_nat_less_iff)
    then show ?thesis by (simp add: loadDecoded_def dims)
  qed
next
  case False
  with bad have f: "gif_Image gif \<noteq> []" "length (gif_Image gif) \<le> W * H"
    and c: "length (gif_Disposal gif) < length (gif_Image gif)"
    by auto
  let ?F = "length (gif_Image gif)"
  let ?m = "length (gif_Disposal gif)"
  let ?L = "enumerate 0 (gif_Image gif)"
  have "0 < ?F" using f(1) by simp
  then have pos: "0 < W * H" using f(2) by linarith
  have m: "?m \<le> ?F" using c by simp
  from frames_loop [OF initial_frames_inv pos m order_refl]
  obtain s where run: "forEach (take ?m ?L) (frameBody gif (int W) (int H))
                         (initialLocals ?F (W * H) (gif_Image gif ! 0)) = Some s"
    by blast
  have split: "?L = take ?m ?L @ (?m, gif_Image gif ! ?m) # drop (Suc ?m) ?L"
    using c id_take_nth_drop [of ?m ?L] by (simp add: nth_enumerate_eq)
  have "forEach ?L (frameBody gif (int W) (int H))
          (initialLocals ?F (W * H) (gif_Image gif ! 0)) = None"
    by (subst split) (simp add: forEach_append run frameBody_no_code)
  then show ?thesis
    by (simp add: loadDecoded_unfold [OF dims f])
qed

lemma loadDecoded_result:
  assumes load: "loadDecoded gif = Inr p" and dims: "getGifDimensions gif = (int W, int H)"
  shows "gif_Image gif \<noteq> [] \<and> length (gif_Image gif) \<le> W * H \<and>
         length (gif_Image gif) \<le> length (gif_Disposal gif) \<and>
         Width p = int W \<and> Height p = int H \<and> Frames p = int (length (gif_Image gif)) \<and>
         Timing p = gif_Delay gif \<and> currentFrame p = 0 \<and> lastFrameTime p = 0 \<and>
         length (pixels p) = length (gif_Image gif) \<and>
         (\<forall>i<length (gif_Image gif).
            length (pixels p ! i) = W * H \<and>
            (\<forall>x<W. \<forall>y<H. pixels p ! i ! (x + y * W) = resolvedPixel gif i x y))"
proof -
  have ok: "gif_Image gif \<noteq> []" "length (gif_Image gif) \<le> W * H"
    "length (gif_Image gif) \<le> length (gif_Disposal gif)"
    using loadDecoded_Panic [OF dims] load by (auto simp: not_less [symmetric])
  from loadDecoded_Inr [OF dims ok] load obtain s where
    inv: "frames_inv gif W H (length (gif_Image gif)) s"
    and p: "p = \<lparr>Width = int W, Height = int H, Frames = int (length (gif_Image gif)),
                 Timing = gif_Delay gif, Disposal = disposals s, pixels = images s,
                 currentFrame = 0, lastFrameTime = 0\<rparr>"
    by auto
  show ?thesis
    using ok inv by (simp add: p frames_inv_def)
qed

lemma LoadGifFromFile_decoded:
  "os_Open fileName = Inr file \<Longrightarrow> gif_DecodeAll file = Inr gif \<Longrightarrow>
     LoadGifFromFile os_Open gif_DecodeAll fileName = loadDecoded gif"
  by (simp add: LoadGifFromFile_def)

lemma loadDecoded_player_state:
  assumes "loadDecoded g = Inr gif" and "length (gif_Delay g) = length (gif_Image g)"
  shows "player_state gif"
proof -
  obtain w h where dims: "getGifDimensions g = (w, h)" by (cases "getGifDimensions g")
  from getGifDimensions_nat [OF dims] obtain W H where "w = int W" "h = int H" by blast
  with dims have "getGifDimensions g = (int W, int H)" by simp
  from loadDecoded_result [OF assms(1) this]
  have ne: "gif_Image g \<noteq> []" and f: "Frames gif = int (length (gif_Image g))"
    and t: "Timing gif = gif_Delay g" and z: "currentFrame gif = 0" "lastFrameTime gif = 0"
    and p: "length (pixels gif) = length (gif_Image g)"
    by simp_all
  show ?thesis
    using ne f t z p assms(2) by (cases "gif_Image g") (simp_all add: player_state_def)
qed

lemma background_gif_dims: "getGifDimensions background_gif = (int 2, int 1)"
  by (simp add: getGifDimensions_def background_gif_def plain_frame_def)

lemma background_gif_load: "loadDecoded background_gif = Inr background_player"
  by code_simp

lemma restore_gif_dims: "getGifDimensions restore_gif = (int 2, int 2)"
  by (simp add: getGifDimensions_def restore_gif_def plain_frame_def)

lemma restore_gif_load: "loadDecoded restore_gif = Inr restore_player"
  by code_simp

lemma single_restore_frameBody:
  "frameBody single_restore_gif (int 1) (int 1) (0, plain_frame 0 0 1 1 opaque_red)
     (initialLocals 1 1 (plain_frame 0 0 1 1 opaque_red)) = Some after_single_restore"
  by (simp add: frameBody_def pixelBody_def single_restore_gif_def initialLocals_def
        after_single_restore_def plain_frame_def opaque_red_def index_def store_def NewColor_def
        FrameDisposalNone_def FrameDisposalDontDispose_def FrameDisposalRestoreBackground_def
        FrameDisposalRestorePrevious_def)

lemma restore_over_green_frameBody:
  "frameBody single_restore_gif (int 1) (int 1) (0, plain_frame 0 0 1 1 opaque_red)
     (initialLocals 1 1 (plain_frame 0 0 1 1 opaque_green)) = Some after_restore_over_green"
  by (simp add: frameBody_def pixelBody_def single_restore_gif_def initialLocals_def
        after_restore_over_green_def plain_frame_def opaque_red_def index_def store_def NewColor_def
        FrameDisposalNone_def FrameDisposalDontDispose_def FrameDisposalRestoreBackground_def
        FrameDisposalRestorePrevious_def)

lemma thirty_frame_gif_dims: "getGifDimensions thirty_frame_gif = (5, 5)"
  by (simp add: getGifDimensions_def dimensionsLoop_eq thirty_frame_gif_def plain_frame_def)

lemma flat_gif_dims: "getGifDimensions flat_gif = (0, 0)"
  by (simp add: getGifDimensions_def flat_gif_def plain_frame_def)

lemma background_player_state: "player_state background_player"
  by (simp add: player_state_def background_player_def)

lemma perform_player_state:
  assumes "rounding f32" and "player_state gif" and "\<And>dt. c = CallStep dt \<Longrightarrow> 0 \<le> dt"
  shows "\<exists>gif'. perform f32 c gif = Some gif' \<and> player_state gif' \<and> Frames gif' = Frames gif"
proof (cases c)
  case (CallStep dt)
  then have "0 \<le> dt" using assms(3) by simp
  then show ?thesis
    using CallStep Step_eq_advance_spec [OF assms(1,2), of dt]
      advance_spec_player_state [OF assms(1,2), of dt]
    by (simp add: advance_spec_def Let_def)
next
  case CallNextFrame
  then show ?thesis
    using assms(2) NextFrame_player_state [OF assms(2), of f32]
    by (auto simp: player_state_def)
next
  case CallReset
  then show ?thesis using assms(2) by (simp add: Reset_def player_state_def)
qed

lemma run_player_state:
  assumes "rounding f32" and "player_state gif" and "\<forall>dt. CallStep dt \<in> set cs \<longrightarrow> 0 \<le> dt"
  shows "\<exists>gif'. forEach cs (perform f32) gif = Some gif' \<and>
                 (player_state gif' \<and> Frames gif' = Frames gif)"
proof (rule forEach_total)
  show "player_state gif \<and> Frames gif = Frames gif" using assms(2) by simp
next
  fix c t
  assume c: "c \<in> set cs" and t: "player_state t \<and> Frames t = Frames gif"
  have "\<And>dt. c = CallStep dt \<Longrightarrow> 0 \<le> dt" using c assms(3) by blast
  from perform_player_state [OF assms(1) conjunct1 [OF t] this] t
  show "\<exists>t'. perform f32 c t = Some t' \<and> (player_state t' \<and> Frames t' = Frames gif)"
    by auto
qed

subsection \<open>Claims about compositing\<close>

text \<open>
  C5. In a loaded animation, a frame with disposal RestoreBackground resolves pixel by pixel
  as follows: where the frame's own sample is fully transparent and the disposal of frame 0
  is DoNotDispose, the pixel is frame 0's sample; everywhere else it is the frame's own
  sample. So a fully transparent sample stays fully transparent when frame 0 has another
  disposal, and an all-transparent RestoreBackground frame after a frame 0 with disposal
  None resolves to a fully transparent buffer of width times height pixels.
\<close>

theorem RestoreBackground_pixels:
  assumes "loadDecoded gif = Inr p" and "getGifDimensions gif = (int W, int H)"
      and "i < length (gif_Image gif)" and "disposalOf gif i = FrameDisposalRestoreBackground"
      and "x < W" and "y < H"
  shows "pixels p ! i ! (x + y * W) =
           (if disposalOf gif 0 = FrameDisposalDontDispose
               \<and> alphaOf (At (gif_Image gif ! i) (int x) (int y)) = 0
            then toColor (At (gif_Image gif ! 0) (int x) (int y))
            else toColor (At (gif_Image gif ! i) (int x) (int y))) \<and>
         (disposalOf gif 0 \<noteq> FrameDisposalDontDispose
            \<and> alphaOf (At (gif_Image gif ! i) (int x) (int y)) = 0
          \<longrightarrow> A (pixels p ! i ! (x + y * W)) = 0) \<and>
         length (pixels p ! i) = W * H"
proof -
  note defs = FrameDisposalNone_def FrameDisposalDontDispose_def
    FrameDisposalRestoreBackground_def FrameDisposalRestorePrevious_def
  from loadDecoded_result [OF assms(1,2)] assms(3,5,6)
  have px: "pixels p ! i ! (x + y * W) = resolvedPixel gif i x y"
    and len: "length (pixels p ! i) = W * H"
    by simp_all
  have "A (toColor rgba) = 0" if "alphaOf rgba = 0" for rgba
    using that by (cases rgba) (simp add: toColor_def alphaOf_def NewColor_def)
  then show ?thesis
    using px len assms(4) by (simp add: resolvedPixel_def pixelValue_def defs)
qed

theorem RestoreBackground_pixels_witness:
  "loadDecoded background_gif = Inr background_player \<and>
   getGifDimensions background_gif = (int 2, int 1) \<and>
   (1::nat) < length (gif_Image background_gif) \<and>
   disposalOf background_gif 1 = FrameDisposalRestoreBackground \<and>
   disposalOf background_gif 0 \<noteq> FrameDisposalDontDispose \<and>
   alphaOf (At (gif_Image background_gif ! 1) (int 0) (int 0)) = 0 \<and>
   pixels background_player ! 1 ! (0 + 0 * 2) = NewColor 0 0 0 0 \<and>
   A (pixels background_player ! 1 ! (0 + 0 * 2)) = 0"
proof -
  note defs = FrameDisposalNone_def FrameDisposalDontDispose_def
    FrameDisposalRestoreBackground_def FrameDisposalRestorePrevious_def
  have i: "(1::nat) < length (gif_Image background_gif)" by (simp add: background_gif_def)
  have d: "disposalOf background_gif 1 = FrameDisposalRestoreBackground"
    by (simp add: disposalOf_def background_gif_def defs)
  have d0: "disposalOf background_gif 0 \<noteq> FrameDisposalDontDispose"
    by (simp add: disposalOf_def background_gif_def defs)
  have a: "alphaOf (At (gif_Image background_gif ! 1) (int 0) (int 0)) = 0"
    by (simp add: background_gif_def plain_frame_def transparent_def alphaOf_def)
  have x: "(0::nat) < 2" and y: "(0::nat) < 1" by simp_all
  have t: "toColor (At (gif_Image background_gif ! 1) (int 0) (int 0)) = NewColor 0 0 0 0"
    by (simp add: background_gif_def plain_frame_def transparent_def toColor_def)
  show ?thesis
    using RestoreBackground_pixels [OF background_gif_load background_gif_dims i d x y]
      background_gif_load background_gif_dims i d d0 a t
    by (simp add: NewColor_def)
qed

text \<open>
  C2, as the code has it. \<^verbatim>\<open>previousNonDisposed\<close> is assigned in the cases None and
  DoNotDispose only: after the loop has processed a frame on a non-empty canvas, the
  reference is that frame if its disposal is None or DoNotDispose, and is unchanged
  otherwise, so also after a RestoreBackground frame. In a loaded animation the fully
  transparent pixels of a frame with disposal RestorePrevious are therefore filled from the
  most recent earlier frame whose disposal is None or DoNotDispose, and from frame 0 when
  there is none; its other pixels are its own samples.
\<close>

theorem previousNonDisposed_follows_None_and_DontDispose:
  "(frameBody gif (int W) (int H) (i, img) s = Some s' \<and> length (clumative s) = W * H \<and>
    0 < W * H \<and> gif_Image gif \<noteq> [] \<longrightarrow>
      previousNonDisposed s' =
        (if disposalOf gif i = FrameDisposalNone \<or> disposalOf gif i = FrameDisposalDontDispose
         then img else previousNonDisposed s)) \<and>
   (loadDecoded gif = Inr p \<and> getGifDimensions gif = (int W, int H) \<and>
    i < length (gif_Image gif) \<and> disposalOf gif i = FrameDisposalRestorePrevious \<and>
    x < W \<and> y < H \<longrightarrow>
      pixels p ! i ! (x + y * W) =
        (if alphaOf (At (gif_Image gif ! i) (int x) (int y)) = 0
         then toColor (At (gif_Image gif ! previousIndex gif i) (int x) (int y))
         else toColor (At (gif_Image gif ! i) (int x) (int y))) \<and>
      (previousIndex gif i = 0 \<or>
         (previousIndex gif i < i \<and>
          (disposalOf gif (previousIndex gif i) = FrameDisposalNone \<or>
           disposalOf gif (previousIndex gif i) = FrameDisposalDontDispose))) \<and>
      (\<forall>j. previousIndex gif i < j \<and> j < i \<longrightarrow>
           disposalOf gif j \<noteq> FrameDisposalNone \<and> disposalOf gif j \<noteq> FrameDisposalDontDispose))"
proof (intro conjI impI)
  assume a: "frameBody gif (int W) (int H) (i, img) s = Some s' \<and> length (clumative s) = W * H \<and>
    0 < W * H \<and> gif_Image gif \<noteq> []"
  then have run: "frameBody gif (int W) (int H) (i, img) s = Some s'"
    and len: "length (clumative s) = W * H" and pos: "0 < W * H" and g: "gif_Image gif \<noteq> []"
    by blast+
  from frameBody_Some_D [OF run len g]
  have b: "i < length (gif_Disposal gif)" "i < length (disposals s)" "i < length (images s)"
    by simp_all
  from frameBody_effect [OF b len g, of img] run
  have "previousNonDisposed s' =
             (if (disposalOf gif i = FrameDisposalNone \<or> disposalOf gif i = FrameDisposalDontDispose)
                 \<and> 0 < W * H
              then img else previousNonDisposed s)"
    by auto
  then show "previousNonDisposed s' =
        (if disposalOf gif i = FrameDisposalNone \<or> disposalOf gif i = FrameDisposalDontDispose
         then img else previousNonDisposed s)"
    using pos by simp
next
  assume a: "loadDecoded gif = Inr p \<and> getGifDimensions gif = (int W, int H) \<and>
    i < length (gif_Image gif) \<and> disposalOf gif i = FrameDisposalRestorePrevious \<and>
    x < W \<and> y < H"
  then have load: "loadDecoded gif = Inr p" and dims: "getGifDimensions gif = (int W, int H)"
    and i: "i < length (gif_Image gif)" and d: "disposalOf gif i = FrameDisposalRestorePrevious"
    and xy: "x < W" "y < H"
    by blast+
  note defs = FrameDisposalNone_def FrameDisposalDontDispose_def
    FrameDisposalRestoreBackground_def FrameDisposalRestorePrevious_def
  from loadDecoded_result [OF load dims] i xy
  have "pixels p ! i ! (x + y * W) = resolvedPixel gif i x y" by simp
  then show "pixels p ! i ! (x + y * W) =
           (if alphaOf (At (gif_Image gif ! i) (int x) (int y)) = 0
            then toColor (At (gif_Image gif ! previousIndex gif i) (int x) (int y))
            else toColor (At (gif_Image gif ! i) (int x) (int y)))"
    using d by (simp add: resolvedPixel_def pixelValue_def defs)
next
  show "previousIndex gif i = 0 \<or>
         (previousIndex gif i < i \<and>
          (disposalOf gif (previousIndex gif i) = FrameDisposalNone \<or>
           disposalOf gif (previousIndex gif i) = FrameDisposalDontDispose))"
    by (rule previousIndex_bound)
next
  show "\<forall>j. previousIndex gif i < j \<and> j < i \<longrightarrow>
           disposalOf gif j \<noteq> FrameDisposalNone \<and> disposalOf gif j \<noteq> FrameDisposalDontDispose"
    using previousIndex_latest [of gif i] by blast
qed

theorem previousNonDisposed_follows_None_and_DontDispose_witness:
  "frameBody single_restore_gif (int 1) (int 1) (0, plain_frame 0 0 1 1 opaque_red)
     (initialLocals 1 1 (plain_frame 0 0 1 1 opaque_green)) = Some after_restore_over_green \<and>
   length (clumative (initialLocals 1 1 (plain_frame 0 0 1 1 opaque_green))) = 1 * 1 \<and>
   (0::nat) < 1 * 1 \<and> gif_Image single_restore_gif \<noteq> [] \<and>
   disposalOf single_restore_gif 0 = FrameDisposalRestoreBackground \<and>
   previousNonDisposed after_restore_over_green
     = previousNonDisposed (initialLocals 1 1 (plain_frame 0 0 1 1 opaque_green)) \<and>
   loadDecoded restore_gif = Inr restore_player \<and>
   getGifDimensions restore_gif = (int 2, int 2) \<and>
   (2::nat) < length (gif_Image restore_gif) \<and>
   disposalOf restore_gif 2 = FrameDisposalRestorePrevious \<and>
   alphaOf (At (gif_Image restore_gif ! 2) (int 1) (int 1)) = 0 \<and>
   previousIndex restore_gif 2 = 0 \<and>
   pixels restore_player ! 2 ! (1 + 1 * 2) = toColor (At (gif_Image restore_gif ! 0) (int 1) (int 1))"
proof -
  note defs = FrameDisposalNone_def FrameDisposalDontDispose_def
    FrameDisposalRestoreBackground_def FrameDisposalRestorePrevious_def
  let ?s = "initialLocals 1 1 (plain_frame 0 0 1 1 opaque_green)"
  have l: "length (clumative ?s) = 1 * 1" by (simp add: initialLocals_def)
  have pos: "(0::nat) < 1 * 1" by simp
  have g: "gif_Image single_restore_gif \<noteq> []" by (simp add: single_restore_gif_def)
  have d0: "disposalOf single_restore_gif 0 = FrameDisposalRestoreBackground"
    by (simp add: disposalOf_def single_restore_gif_def defs)
  have keep: "previousNonDisposed after_restore_over_green = previousNonDisposed ?s"
    using previousNonDisposed_follows_None_and_DontDispose
        [of single_restore_gif 1 1 0 "plain_frame 0 0 1 1 opaque_red" ?s after_restore_over_green]
      restore_over_green_frameBody l pos g d0
    by (simp add: defs)
  have i: "(2::nat) < length (gif_Image restore_gif)" by (simp add: restore_gif_def)
  have d: "disposalOf restore_gif 2 = FrameDisposalRestorePrevious"
    by (simp add: disposalOf_def restore_gif_def defs)
  have a: "alphaOf (At (gif_Image restore_gif ! 2) (int 1) (int 1)) = 0"
    by (simp add: restore_gif_def plain_frame_def transparent_def alphaOf_def)
  have x: "(1::nat) < 2" by simp
  have pi: "previousIndex restore_gif 2 = 0"
    by (simp add: numeral_2_eq_2 disposalOf_def restore_gif_def defs)
  have px: "pixels restore_player ! 2 ! (1 + 1 * 2)
              = toColor (At (gif_Image restore_gif ! 0) (int 1) (int 1))"
    using previousNonDisposed_follows_None_and_DontDispose
        [of restore_gif 2 2 2 _ _ _ restore_player 1 1]
      restore_gif_load restore_gif_dims i d x a pi
    by simp
  show ?thesis
    using restore_over_green_frameBody l pos g d0 keep restore_gif_load restore_gif_dims i d a pi px
    by blast
qed

text \<open>
  C2 as stated fails. In the three-frame example frame 1 has disposal RestoreBackground, so
  the rule of the specification selects frame 1 (green) for the transparent frame 2; the
  code resolves frame 2 to red, the colour of frame 0.
\<close>

theorem RestorePrevious_skips_RestoreBackground:
  "loadDecoded restore_gif = Inr restore_player \<and>
   disposalOf restore_gif 1 = FrameDisposalRestoreBackground \<and>
   disposalOf restore_gif 2 = FrameDisposalRestorePrevious \<and>
   alphaOf (At (gif_Image restore_gif ! 2) 0 0) = 0 \<and>
   previousIndex_spec restore_gif 2 = 1 \<and>
   toColor (At (gif_Image restore_gif ! previousIndex_spec restore_gif 2) 0 0) = NewColor 0 255 0 255 \<and>
   pixels restore_player ! 2 ! 0 = NewColor 255 0 0 255"
proof -
  note defs = FrameDisposalNone_def FrameDisposalDontDispose_def
    FrameDisposalRestoreBackground_def FrameDisposalRestorePrevious_def
  have d: "disposalOf restore_gif 1 = FrameDisposalRestoreBackground"
    "disposalOf restore_gif 2 = FrameDisposalRestorePrevious"
    by (simp_all add: disposalOf_def restore_gif_def defs)
  have a: "alphaOf (At (gif_Image restore_gif ! 2) 0 0) = 0"
    by (simp add: restore_gif_def plain_frame_def transparent_def alphaOf_def)
  have pi: "previousIndex_spec restore_gif 2 = 1"
    by (simp add: numeral_2_eq_2 disposalOf_def restore_gif_def defs)
  have g: "toColor (At (gif_Image restore_gif ! 1) 0 0) = NewColor 0 255 0 255"
    by (simp add: restore_gif_def plain_frame_def opaque_green_def toColor_def NewColor_def)
  have r: "pixels restore_player ! 2 ! 0 = NewColor 255 0 0 255"
    by (simp add: restore_player_def)
  show ?thesis using restore_gif_load d a pi g r by simp
qed

text \<open>
  C1, as the code has it. The cases RestoreBackground and RestorePrevious end with the same
  assignment to \<^verbatim>\<open>clumative\<close> as the case None: after the loop has processed such a frame,
  every pixel of the accumulation buffer equals the frame's resolved pixel.
\<close>

theorem restoring_frame_writes_accumulation:
  assumes "frameBody gif (int W) (int H) (i, img) s = Some s'"
      and "length (clumative s) = W * H" and "gif_Image gif \<noteq> []"
      and "disposalOf gif i = FrameDisposalRestoreBackground
           \<or> disposalOf gif i = FrameDisposalRestorePrevious"
      and "x < W" and "y < H"
  shows "clumative s' ! (x + y * W) = images s' ! i ! (x + y * W)"
proof -
  from frameBody_Some_D [OF assms(1-3)]
  have b: "i < length (gif_Disposal gif)" "i < length (disposals s)" "i < length (images s)"
    by simp_all
  from assms(4) have kn: "known (disposalOf gif i)" by (auto simp: known_def)
  from frameBody_effect [OF b assms(2,3), of img] assms(1)
  have "images s' = (images s)[i := pixels' s']"
    and "clumative s' ! (x + y * W) =
           (if known (disposalOf gif i) then pixels' s' ! (x + y * W)
            else clumative s ! (x + y * W))"
    using assms(5,6) by auto
  then show ?thesis using kn b(3) by simp
qed

theorem restoring_frame_writes_accumulation_witness:
  "frameBody single_restore_gif (int 1) (int 1) (0, plain_frame 0 0 1 1 opaque_red)
     (initialLocals 1 1 (plain_frame 0 0 1 1 opaque_red)) = Some after_single_restore \<and>
   length (clumative (initialLocals 1 1 (plain_frame 0 0 1 1 opaque_red))) = 1 * 1 \<and>
   gif_Image single_restore_gif \<noteq> [] \<and>
   disposalOf single_restore_gif 0 = FrameDisposalRestoreBackground \<and>
   clumative after_single_restore ! (0 + 0 * 1) = images after_single_restore ! 0 ! (0 + 0 * 1)"
proof -
  have l: "length (clumative (initialLocals 1 1 (plain_frame 0 0 1 1 opaque_red))) = 1 * 1"
    by (simp add: initialLocals_def)
  have g: "gif_Image single_restore_gif \<noteq> []" by (simp add: single_restore_gif_def)
  have d: "disposalOf single_restore_gif 0 = FrameDisposalRestoreBackground"
    by (simp add: disposalOf_def single_restore_gif_def FrameDisposalRestoreBackground_def)
  have d': "disposalOf single_restore_gif 0 = FrameDisposalRestoreBackground
           \<or> disposalOf single_restore_gif 0 = FrameDisposalRestorePrevious"
    using d by simp
  have z: "(0::nat) < 1" by simp
  show ?thesis
    using restoring_frame_writes_accumulation [OF single_restore_frameBody l g d' z z] 
      single_restore_frameBody l g d
    by simp
qed

text \<open>
  C1 as stated fails. Processing one opaque red frame with disposal RestoreBackground turns the
  accumulation buffer from the zero colour into red.
\<close>

theorem RestoreBackground_changes_accumulation:
  "disposalOf single_restore_gif 0 = FrameDisposalRestoreBackground \<and>
   map_option clumative
     (frameBody single_restore_gif 1 1 (0, plain_frame 0 0 1 1 opaque_red)
        (initialLocals 1 1 (plain_frame 0 0 1 1 opaque_red))) = Some [NewColor 255 0 0 255] \<and>
   clumative (initialLocals 1 1 (plain_frame 0 0 1 1 opaque_red)) = [NewColor 0 0 0 0]"
proof -
  have d: "disposalOf single_restore_gif 0 = FrameDisposalRestoreBackground"
    by (simp add: disposalOf_def single_restore_gif_def FrameDisposalRestoreBackground_def)
  have "frameBody single_restore_gif 1 1 (0, plain_frame 0 0 1 1 opaque_red)
     (initialLocals 1 1 (plain_frame 0 0 1 1 opaque_red)) = Some after_single_restore"
    using single_restore_frameBody by simp
  then show ?thesis
    using d by (simp add: after_single_restore_def initialLocals_def)
qed

subsection \<open>Claims about loading\<close>

text \<open>
  C10. \<^verbatim>\<open>images\<close> is made with length \<open>frames\<close> and capacity width times height. When the
  decoded animation has more frames than pixels per frame, loading panics; when loading
  returns a \<open>GifImage\<close>, its frame count is at most its width times its height.
\<close>

theorem LoadGifFromFile_needs_frames_le_pixels:
  assumes "os_Open fileName = Inr file" and "gif_DecodeAll file = Inr gif"
      and "getGifDimensions gif = (w, h)"
  shows "(w * h < int (length (gif_Image gif)) \<longrightarrow>
            LoadGifFromFile os_Open gif_DecodeAll fileName = Inl Panic) \<and>
         (\<forall>p. LoadGifFromFile os_Open gif_DecodeAll fileName = Inr p \<longrightarrow>
              Frames p = int (length (gif_Image gif)) \<and> Width p = w \<and> Height p = h \<and>
              Frames p \<le> Width p * Height p)"
proof -
  from getGifDimensions_nat [OF assms(3)] obtain W H where wh: "w = int W" "h = int H" by blast
  have dims: "getGifDimensions gif = (int W, int H)" using assms(3) wh by simp
  have eq: "LoadGifFromFile os_Open gif_DecodeAll fileName = loadDecoded gif"
    by (rule LoadGifFromFile_decoded [of os_Open fileName "file" gif_DecodeAll gif, OF assms(1,2)])
  have a: "loadDecoded gif = Inl Panic" if "w * h < int (length (gif_Image gif))"
  proof -
    from that wh have "W * H < length (gif_Image gif)"
      by (metis of_nat_mult of_nat_less_iff)
    then show ?thesis using loadDecoded_Panic [OF dims] by simp
  qed
  have b: "Frames p = int (length (gif_Image gif)) \<and> Width p = w \<and> Height p = h \<and>
           Frames p \<le> Width p * Height p" if "loadDecoded gif = Inr p" for p
  proof -
    from loadDecoded_result [OF that dims]
    have "length (gif_Image gif) \<le> W * H" "Width p = int W" "Height p = int H"
      "Frames p = int (length (gif_Image gif))"
      by simp_all
    then show ?thesis using wh by (metis of_nat_mult of_nat_le_iff)
  qed
  show ?thesis unfolding eq using a b by blast
qed

theorem LoadGifFromFile_needs_frames_le_pixels_witness:
  "opens ''thirty.gif'' = Inr () \<and> decodes_to thirty_frame_gif () = Inr thirty_frame_gif \<and>
   getGifDimensions thirty_frame_gif = (5, 5) \<and>
   (5::int) * 5 < int (length (gif_Image thirty_frame_gif)) \<and>
   LoadGifFromFile opens (decodes_to thirty_frame_gif) ''thirty.gif'' = Inl Panic \<and>
   decodes_to background_gif () = Inr background_gif \<and>
   getGifDimensions background_gif = (2, 1) \<and>
   LoadGifFromFile opens (decodes_to background_gif) ''thirty.gif'' = Inr background_player \<and>
   Frames background_player \<le> Width background_player * Height background_player"
proof -
  have o: "opens ''thirty.gif'' = Inr ()" by (simp add: opens_def)
  have d: "decodes_to thirty_frame_gif () = Inr thirty_frame_gif" by (simp add: decodes_to_def)
  have n: "(5::int) * 5 < int (length (gif_Image thirty_frame_gif))"
    by (simp add: thirty_frame_gif_def)
  have d2: "decodes_to background_gif () = Inr background_gif" by (simp add: decodes_to_def)
  have dims2: "getGifDimensions background_gif = (2, 1)" using background_gif_dims by simp
  have l2: "LoadGifFromFile opens (decodes_to background_gif) ''thirty.gif'' = Inr background_player"
    by (simp add: LoadGifFromFile_def opens_def decodes_to_def background_gif_load)
  have panic: "LoadGifFromFile opens (decodes_to thirty_frame_gif) ''thirty.gif'' = Inl Panic"
    using LoadGifFromFile_needs_frames_le_pixels
        [of opens "''thirty.gif''" "()" "decodes_to thirty_frame_gif" thirty_frame_gif 5 5,
         OF o d thirty_frame_gif_dims] n
    by blast
  have le: "Frames background_player \<le> Width background_player * Height background_player"
    using LoadGifFromFile_needs_frames_le_pixels
        [of opens "''thirty.gif''" "()" "decodes_to background_gif" background_gif 2 1,
         OF o d2 dims2] l2
    by blast
  show ?thesis
    using o d thirty_frame_gif_dims n panic d2 dims2 l2 le by blast
qed

text \<open>
  C3, at an input on which the code departs from it. A decoded animation whose single frame
  has an empty rectangle has bounding dimensions 0 by 0. The claim asks for an error value
  before compositing begins; the loader instead ends in the run-time panic of
  \<^verbatim>\<open>make([][]r.Color, frames, imgWidth*imgHeight)\<close> with one frame and capacity 0, and returns
  neither an error nor a \<open>GifImage\<close>. The two failures before it, of \<^verbatim>\<open>os.Open\<close> and of
  \<^verbatim>\<open>gif.DecodeAll\<close>, are returned as errors, and the block that turns a panic into an error is
  commented out in the source.
\<close>

theorem LoadGifFromFile_empty_rectangle_panics:
  "length (gif_Image flat_gif) = 1 \<and> length (gif_Delay flat_gif) = 1 \<and>
   length (gif_Disposal flat_gif) = 1 \<and> getGifDimensions flat_gif = (0, 0) \<and>
   LoadGifFromFile opens (decodes_to flat_gif) ''flat.gif'' = Inl Panic"
proof -
  have "loadDecoded flat_gif = Inl Panic" by code_simp
  then have "LoadGifFromFile opens (decodes_to flat_gif) ''flat.gif'' = Inl Panic"
    by (simp add: LoadGifFromFile_def opens_def decodes_to_def)
  then show ?thesis using flat_gif_dims by (simp add: flat_gif_def)
qed

subsection \<open>The playback invariant\<close>

text \<open>
  C7. A \<open>GifImage\<close> loaded from an animation with as many delays as frames is a player
  state. From a player state, every finite run of \<open>Step\<close> (with a time step \<open>\<ge> 0\<close>),
  \<open>NextFrame\<close> and \<open>Reset\<close> calls returns without panic, and after every call of the run the
  cursor is within \<open>0 \<le> currentFrame < Frames\<close> and the accumulated time is \<open>\<ge> 0\<close>. A
  \<open>Step\<close> that advances from the last frame moves the cursor to 0.
\<close>

theorem playback_state_in_range:
  "(loadDecoded g = Inr gif \<and> length (gif_Delay g) = length (gif_Image g) \<longrightarrow> player_state gif) \<and>
   (rounding f32 \<and> player_state gif \<and> (\<forall>dt. CallStep dt \<in> set cs \<longrightarrow> 0 \<le> dt) \<longrightarrow>
      (\<forall>n. \<exists>gif'. forEach (take n cs) (perform f32) gif = Some gif' \<and>
                   Frames gif' = Frames gif \<and> 0 \<le> currentFrame gif' \<and>
                   currentFrame gif' < Frames gif' \<and> 0 \<le> lastFrameTime gif')) \<and>
   (rounding f32 \<and> player_state gif \<and> 0 \<le> dt \<and> currentFrame gif = Frames gif - 1 \<and>
      f32 (of_int (Timing gif ! nat (currentFrame gif))) \<le> f32 (lastFrameTime gif + f32 (dt * 100))
      \<longrightarrow> map_option currentFrame (Step f32 gif dt) = Some 0)"
proof (intro conjI impI allI)
  assume "loadDecoded g = Inr gif \<and> length (gif_Delay g) = length (gif_Image g)"
  then show "player_state gif" using loadDecoded_player_state by blast
next
  fix n
  assume a: "rounding f32 \<and> player_state gif \<and> (\<forall>dt. CallStep dt \<in> set cs \<longrightarrow> 0 \<le> dt)"
  then have "\<forall>dt. CallStep dt \<in> set (take n cs) \<longrightarrow> 0 \<le> dt" by (meson in_set_takeD)
  with a run_player_state [of f32 gif "take n cs"]
  obtain gif' where "forEach (take n cs) (perform f32) gif = Some gif'"
      "player_state gif'" "Frames gif' = Frames gif"
    by blast
  then show "\<exists>gif'. forEach (take n cs) (perform f32) gif = Some gif' \<and>
                   Frames gif' = Frames gif \<and> 0 \<le> currentFrame gif' \<and>
                   currentFrame gif' < Frames gif' \<and> 0 \<le> lastFrameTime gif'"
    by (auto simp: player_state_def)
next
  assume a: "rounding f32 \<and> player_state gif \<and> 0 \<le> dt \<and> currentFrame gif = Frames gif - 1 \<and>
      f32 (of_int (Timing gif ! nat (currentFrame gif))) \<le> f32 (lastFrameTime gif + f32 (dt * 100))"
  then have st: "Step f32 gif dt = Some (advance_spec f32 gif dt)"
    using Step_eq_advance_spec by blast
  from a have le: "f32 (of_int (Timing gif ! nat (currentFrame gif)))
                     \<le> f32 (lastFrameTime gif + f32 (dt * 100))"
    by blast
  have "currentFrame (advance_spec f32 gif dt) = (currentFrame gif + 1) mod Frames gif"
    using le by (simp add: advance_spec_def Let_def)
  also have "\<dots> = 0"
  proof -
    from a have "currentFrame gif = Frames gif - 1" by blast
    then show ?thesis by simp
  qed
  finally show "map_option currentFrame (Step f32 gif dt) = Some 0"
    using st by simp
qed

theorem playback_state_in_range_witness:
  "loadDecoded background_gif = Inr background_player \<and>
   length (gif_Delay background_gif) = length (gif_Image background_gif) \<and>
   rounding (\<lambda>x. x) \<and> player_state background_player \<and>
   (0::real) \<le> 1 / 20 \<and> (0::real) \<le> 1 / 10 \<and>
   forEach [CallStep (1 / 20), CallStep (1 / 10)] (perform (\<lambda>x. x)) background_player
     = Some (background_player\<lparr>currentFrame := 1, lastFrameTime := 5\<rparr>) \<and>
   forEach [CallStep (1 / 20), CallStep (1 / 10), CallNextFrame, CallReset] (perform (\<lambda>x. x))
       background_player
     = Some background_player \<and>
   (0::real) \<le> 1 / 5 \<and>
   currentFrame (background_player\<lparr>currentFrame := 1\<rparr>)
     = Frames (background_player\<lparr>currentFrame := 1\<rparr>) - 1 \<and>
   map_option currentFrame (Step (\<lambda>x. x) (background_player\<lparr>currentFrame := 1\<rparr>) (1 / 5)) = Some 0"
proof -
  let ?cs = "[CallStep (1 / 20), CallStep (1 / 10), CallNextFrame, CallReset]"
  let ?last = "background_player\<lparr>currentFrame := 1\<rparr>"
  have l: "length (gif_Delay background_gif) = length (gif_Image background_gif)"
    by (simp add: background_gif_def)
  have r: "rounding (\<lambda>x. x)" by (rule rounding_exact)
  have c: "\<forall>dt. CallStep dt \<in> set ?cs \<longrightarrow> 0 \<le> dt" by auto
  have p2: "player_state ?last" by (simp add: player_state_def background_player_def)
  have e: "currentFrame ?last = Frames ?last - 1" by (simp add: background_player_def)
  have t: "(of_int (Timing ?last ! nat (currentFrame ?last)) :: real)
             \<le> lastFrameTime ?last + 1 / 5 * 100"
    by (simp add: background_player_def)
  have d: "(0::real) \<le> 1 / 5" by simp
  have first: "player_state background_player"
    using playback_state_in_range [of background_gif background_player "\<lambda>x. x" ?cs 0]
      background_gif_load l by blast
  have run: "\<forall>n. \<exists>gif'. forEach (take n ?cs) (perform (\<lambda>x. x)) background_player = Some gif' \<and>
                Frames gif' = Frames background_player \<and> 0 \<le> currentFrame gif' \<and>
                currentFrame gif' < Frames gif' \<and> 0 \<le> lastFrameTime gif'"
    using playback_state_in_range [of background_gif background_player "\<lambda>x. x" ?cs 0]
      r first c by blast
  have wrap: "map_option currentFrame (Step (\<lambda>x. x) ?last (1 / 5)) = Some 0"
    using playback_state_in_range [of background_gif ?last "\<lambda>x. x" ?cs "1 / 5"]
      r p2 d e t by blast
  have s1: "Step (\<lambda>x. x) background_player (1 / 20) = Some (background_player\<lparr>lastFrameTime := 5\<rparr>)"
    by (simp add: Step_def background_player_def index_def)
  have s2: "Step (\<lambda>x. x) (background_player\<lparr>lastFrameTime := 5\<rparr>) (1 / 10)
              = Some (background_player\<lparr>currentFrame := 1, lastFrameTime := 5\<rparr>)"
    by (simp add: Step_def NextFrame_def background_player_def index_def smod_nonneg)
  have s3: "NextFrame (\<lambda>x. x) (background_player\<lparr>currentFrame := 1, lastFrameTime := 5\<rparr>)
              = Some (background_player\<lparr>currentFrame := 0, lastFrameTime := 0\<rparr>)"
    by (simp add: NextFrame_def background_player_def index_def smod_nonneg)
  have s4: "Reset (background_player\<lparr>currentFrame := 0, lastFrameTime := 0\<rparr>) = background_player"
    by (simp add: Reset_def background_player_def)
  have two: "forEach [CallStep (1 / 20), CallStep (1 / 10)] (perform (\<lambda>x. x)) background_player
               = Some (background_player\<lparr>currentFrame := 1, lastFrameTime := 5\<rparr>)"
    by (simp add: s1 s2)
  have four: "forEach ?cs (perform (\<lambda>x. x)) background_player = Some background_player"
    by (simp add: s1 s2 s3 s4)
  have z: "(0::real) \<le> 1 / 20" "(0::real) \<le> 1 / 10" by simp_all
  show ?thesis
    using background_gif_load l r first run z two four d e wrap by blast
qed

end
